theory Spec2Isabelle
  imports Complex_Main
begin

section \<open>Points and polylines (geometry.py)\<close>

text \<open>
  Coordinates and tolerances are Python numbers (ints and floats).  A number is identified
  with its value, a real: an int and a float of the same value are the same number, and
  comparisons (\<open>==\<close>, \<open>>\<close>, \<open><\<close>) are exact, as Python's comparisons of ints and
  floats are.  What an arithmetic operation returns is not fixed (see \<open>arith\<close> below), so
  operations that round and operations that raise are covered.  An infinity that a float
  operation returns is a number beyond every float.  A deviation that is a NaN fails the
  only test made on it, \<open>dev > maxdev\<close>, as a negative number does, and is covered as
  one; a NaN as a coordinate or as a tolerance is not covered.  Indices are Python ints
  and are modelled as \<open>int\<close>.
\<close>

datatype Point = Point (p_x: real) (p_y: real)

text \<open>
  An exception is a value of type \<open>error\<close>.  The first four are raised by the interpreter:
  \<open>IndexError\<close> by list indexing (``list index out of range''), \<open>ZeroDivisionError\<close> by a
  division by zero, \<open>OverflowError\<close> when an int does not fit a float, \<open>ValueError\<close> by
  \<open>math.sqrt\<close> of a negative number.  \<open>Raised msg\<close> is an exception that a \<open>raise\<close>
  statement of the program raises, with the message it gives: the only way for the program
  to fail with a description of its own.  geometry.py contains no \<open>raise\<close> statement, so
  no function below returns \<open>Raised\<close>.
\<close>

datatype error = IndexError | ZeroDivisionError | OverflowError | ValueError | Raised string

text \<open>
  The arithmetic of the interpreter, as far as geometry.py uses it: \<open>-\<close>, \<open>*\<close>, \<open>+\<close>,
  \<open>/\<close> and \<open>math.sqrt\<close>.  Each operation returns a number or raises.  With floats the
  number returned is the rounded one; \<open>/\<close> raises \<open>ZeroDivisionError\<close> when the divisor is
  zero (also when the divisor is a quotient that was rounded to zero), and an operation on
  an int that does not fit a float raises \<open>OverflowError\<close>.  The functions below take the
  arithmetic as their first argument and assume nothing about it, except that an operation
  on the same numbers has the same outcome each time.
\<close>

record arith =
  n_sub :: "real \<Rightarrow> real \<Rightarrow> error + real"
  n_mul :: "real \<Rightarrow> real \<Rightarrow> error + real"
  n_add :: "real \<Rightarrow> real \<Rightarrow> error + real"
  n_div :: "real \<Rightarrow> real \<Rightarrow> error + real"
  n_sqrt :: "real \<Rightarrow> error + real"

text \<open>
  Arithmetic without rounding: every operation returns the exact result, division by zero
  and the square root of a negative number raise.  It is the arithmetic of the runs on
  small numbers that are evaluated below.
\<close>

definition exact :: arith where
  "exact =
     \<lparr>n_sub = (\<lambda>a b. Inr (a - b)),
      n_mul = (\<lambda>a b. Inr (a * b)),
      n_add = (\<lambda>a b. Inr (a + b)),
      n_div = (\<lambda>a b. if b = 0 then Inl ZeroDivisionError else Inr (a / b)),
      n_sqrt = (\<lambda>a. if a < 0 then Inl ValueError else Inr (sqrt a))\<rparr>"

text \<open>Sequencing: an exception of the first computation ends the whole.\<close>

definition and_then :: "error + 'a \<Rightarrow> ('a \<Rightarrow> error + 'b) \<Rightarrow> error + 'b" where
  "and_then r f = (case r of Inl e \<Rightarrow> Inl e | Inr v \<Rightarrow> f v)"

text \<open>
  A listener is an opaque object with a \<open>notify\<close> method; it is identified by a
  number, and the only effect of \<open>listener.notify(event_name, options=options)\<close> that
  the model keeps is the entry it adds to the list of delivered notifications.
\<close>

type_synonym listener = nat

type_synonym options = "(string \<times> (real \<times> real)) list"

type_synonym notification = "listener \<times> string \<times> options"

text \<open>
  Class \<open>PolyLine\<close>: the fields \<open>_listeners\<close> and \<open>_points\<close> (a name cannot start
  with an underscore here).
\<close>

record PolyLine =
  listeners :: "listener list"
  points :: "Point list"

text \<open>
  PolyLine objects are mutable and shared by reference, so they live in a heap: a reference
  is the position of the object in the list of all objects allocated so far.  The state of
  a run is the heap and the notifications delivered to listeners so far.
\<close>

type_synonym ref = nat

record state =
  heap :: "PolyLine list"
  delivered :: "notification list"

text \<open>
  A call that completes either returns a value or raises; both come with the state the call
  leaves behind.  \<open>None\<close> stands for a call that has not completed within the recursion
  depth it was given.
\<close>

type_synonym 'a outcome = "((error + 'a) \<times> state) option"

subsection \<open>List indexing\<close>

text \<open>\<open>xs[i]\<close> of a Python list: a negative index counts from the end.\<close>

definition getitem :: "'a list \<Rightarrow> int \<Rightarrow> error + 'a" where
  "getitem xs i =
     (if 0 \<le> i \<and> i < int (length xs) then Inr (xs ! nat i)
      else if i < 0 \<and> 0 \<le> int (length xs) + i then Inr (xs ! nat (int (length xs) + i))
      else Inl IndexError)"

subsection \<open>Geometric primitives\<close>

text \<open>
  \<open>normal_intercept(p1, p2, p)\<close>.  The two special cases involve no arithmetic.  In the
  general branch the operations are carried out in the order in which Python evaluates
  them, and the first one that raises ends the call: \<open>1.0 / seg_slope\<close> raises
  \<open>ZeroDivisionError\<close> when the slope was rounded to zero.
\<close>

definition normal_intercept :: "arith \<Rightarrow> Point \<Rightarrow> Point \<Rightarrow> Point \<Rightarrow> error + Point" where
  "normal_intercept ar p1 p2 p =
     (if p_x p2 = p_x p1 then Inr (Point (p_x p1) (p_y p))
      else if p_y p2 = p_y p1 then Inr (Point (p_x p) (p_y p1))
      else
        and_then (n_sub ar (p_y p2) (p_y p1)) (\<lambda>rise.
        and_then (n_sub ar (p_x p2) (p_x p1)) (\<lambda>run.
        and_then (n_div ar rise run) (\<lambda>seg_slope.
        and_then (n_div ar 1 seg_slope) (\<lambda>inverse_slope.
        and_then (n_sub ar 0 inverse_slope) (\<lambda>normal_slope.
        and_then (n_mul ar seg_slope (p_x p1)) (\<lambda>seg_mx.
        and_then (n_sub ar (p_y p1) seg_mx) (\<lambda>seg_b.
        and_then (n_mul ar normal_slope (p_x p)) (\<lambda>normal_mx.
        and_then (n_sub ar (p_y p) normal_mx) (\<lambda>normal_b.
        and_then (n_sub ar seg_b normal_b) (\<lambda>b_diff.
        and_then (n_sub ar normal_slope seg_slope) (\<lambda>slope_diff.
        and_then (n_div ar b_diff slope_diff) (\<lambda>x_intersect.
        and_then (n_mul ar seg_slope x_intersect) (\<lambda>seg_mxi.
        and_then (n_add ar seg_mxi seg_b) (\<lambda>y_intersect.
        Inr (Point x_intersect y_intersect))))))))))))))))"

text \<open>\<open>deviation(p1, p2, p)\<close>: the distance from \<open>p\<close> to its normal intercept.\<close>

definition deviation :: "arith \<Rightarrow> Point \<Rightarrow> Point \<Rightarrow> Point \<Rightarrow> error + real" where
  "deviation ar p1 p2 p =
     and_then (normal_intercept ar p1 p2 p) (\<lambda>intercept.
     and_then (n_sub ar (p_x intercept) (p_x p)) (\<lambda>dx.
     and_then (n_sub ar (p_y intercept) (p_y p)) (\<lambda>dy.
     and_then (n_mul ar dx dx) (\<lambda>dx2.
     and_then (n_mul ar dy dy) (\<lambda>dy2.
     and_then (n_add ar dx2 dy2) (\<lambda>sum2.
     n_sqrt ar sum2))))))"

subsection \<open>PolyLine: construction, append, listeners\<close>

text \<open>\<open>PolyLine()\<close>: a new object with no listeners and no points.\<close>

definition PolyLine_init :: "state \<Rightarrow> ref \<times> state" where
  "PolyLine_init s =
     (length (heap s), s\<lparr>heap := heap s @ [\<lparr>listeners = [], points = []\<rparr>]\<rparr>)"

text \<open>\<open>self._points.append(other)\<close>\<close>

definition append :: "ref \<Rightarrow> Point \<Rightarrow> state \<Rightarrow> state" where
  "append self other s =
     s\<lparr>heap := (heap s)[self := (heap s ! self)\<lparr>points := points (heap s ! self) @ [other]\<rparr>]\<rparr>"

text \<open>\<open>self._listeners.append(listener)\<close>\<close>

definition add_listener :: "ref \<Rightarrow> listener \<Rightarrow> state \<Rightarrow> state" where
  "add_listener self l s =
     s\<lparr>heap := (heap s)[self := (heap s ! self)\<lparr>listeners := listeners (heap s ! self) @ [l]\<rparr>]\<rparr>"

text \<open>
  \<open>notify_all\<close>: every listener, in registration order, receives the event name and the
  options.
\<close>

definition notify_all :: "ref \<Rightarrow> string \<Rightarrow> options \<Rightarrow> state \<Rightarrow> state" where
  "notify_all self event_name opts s =
     s\<lparr>delivered := delivered s @ map (\<lambda>l. (l, event_name, opts)) (listeners (heap s ! self))\<rparr>"

subsection \<open>Simplification\<close>

text \<open>
  The loop of \<open>_dp_simplify\<close> over \<open>range(from_index + 1, to_index)\<close>, with the loop
  variables \<open>maxdev\<close> and \<open>maxindex\<close> as the accumulator.  The three points are read in
  the order in which Python evaluates the arguments of \<open>deviation\<close>; an exception of
  \<open>deviation\<close> ends the loop.
\<close>

fun scan :: "arith \<Rightarrow> Point list \<Rightarrow> int \<Rightarrow> int \<Rightarrow> int list \<Rightarrow> real \<times> int \<Rightarrow> error + (real \<times> int)" where
  "scan ar pts from_index to_index [] acc = Inr acc"
| "scan ar pts from_index to_index (i # rest) (maxdev, maxindex) =
     (case getitem pts from_index of
        Inl e \<Rightarrow> Inl e
      | Inr p1 \<Rightarrow>
          (case getitem pts to_index of
             Inl e \<Rightarrow> Inl e
           | Inr p2 \<Rightarrow>
               (case getitem pts i of
                  Inl e \<Rightarrow> Inl e
                | Inr p \<Rightarrow>
                    (case deviation ar p1 p2 p of
                       Inl e \<Rightarrow> Inl e
                     | Inr dev \<Rightarrow>
                         if dev > maxdev then scan ar pts from_index to_index rest (dev, i)
                         else scan ar pts from_index to_index rest (maxdev, maxindex)))))"

text \<open>
  \<open>_dp_simplify(self, approx, tolerance, from_index, to_index)\<close>.  The second argument
  bounds the depth of the recursion: a call that would need more nested calls than that
  has no outcome.  The body makes no call to \<open>notify_all\<close>, so the model makes none.
\<close>

fun dp_simplify :: "arith \<Rightarrow> nat \<Rightarrow> ref \<Rightarrow> ref \<Rightarrow> real \<Rightarrow> int \<Rightarrow> int \<Rightarrow> state \<Rightarrow> unit outcome" where
  "dp_simplify ar 0 self approx tolerance from_index to_index s = None"
| "dp_simplify ar (Suc depth) self approx tolerance from_index to_index s =
     (if to_index - from_index < 2 then
        (case getitem (points (heap s ! self)) from_index of
           Inl e \<Rightarrow> Some (Inl e, s)
         | Inr p \<Rightarrow> Some (Inr (), append approx p s))
      else
        (case scan ar (points (heap s ! self)) from_index to_index
                [from_index + 1 .. to_index - 1] (0, 0) of
           Inl e \<Rightarrow> Some (Inl e, s)
         | Inr (maxdev, maxindex) \<Rightarrow>
             if maxdev < tolerance then
               (case getitem (points (heap s ! self)) from_index of
                  Inl e \<Rightarrow> Some (Inl e, s)
                | Inr p \<Rightarrow> Some (Inr (), append approx p s))
             else
               (case dp_simplify ar depth self approx tolerance from_index maxindex s of
                  None \<Rightarrow> None
                | Some (Inl e, s1) \<Rightarrow> Some (Inl e, s1)
                | Some (Inr u, s1) \<Rightarrow>
                    dp_simplify ar depth self approx tolerance maxindex to_index s1)))"

text \<open>\<open>approximate(self, tolerance)\<close>\<close>

definition approximate :: "arith \<Rightarrow> nat \<Rightarrow> ref \<Rightarrow> real \<Rightarrow> state \<Rightarrow> ref outcome" where
  "approximate ar depth self tolerance s =
     (case PolyLine_init s of
        (approx, s0) \<Rightarrow>
          (case dp_simplify ar depth self approx tolerance 0
                  (int (length (points (heap s0 ! self))) - 1) s0 of
             None \<Rightarrow> None
           | Some (Inl e, s1) \<Rightarrow> Some (Inl e, s1)
           | Some (Inr u, s1) \<Rightarrow>
               (case getitem (points (heap s1 ! self)) (- 1) of
                  Inl e \<Rightarrow> Some (Inl e, s1)
                | Inr p \<Rightarrow> Some (Inr approx, append approx p s1))))"

subsection \<open>Equality of polylines\<close>

text \<open>
  The right operand of \<open>==\<close>: a list of points, a PolyLine object, or a value of another
  kind (\<open>None\<close>, a number, a string) that no list equals.
\<close>

datatype operand = OList "Point list" | OPolyLine ref | OOther

text \<open>
  \<open>PolyLine.__eq__\<close> called with a list as its operand: \<open>self._points == other\<close> then
  compares two lists element by element.  A Python \<open>True\<close> is \<open>Some True\<close>; falling off
  the end of the body returns Python's \<open>None\<close>, which is \<open>None\<close>.
\<close>

definition PolyLine_eq_list :: "PolyLine \<Rightarrow> Point list \<Rightarrow> bool option" where
  "PolyLine_eq_list self other = (if points self = other then Some True else None)"

text \<open>
  \<open>self._points == other\<close>, as tested by \<open>if\<close>.  With a PolyLine as the operand the
  list's own comparison declines (\<open>NotImplemented\<close>), Python calls the reflected
  \<open>other.__eq__(self._points)\<close>, and the test reads the truth value of what that returns.
\<close>

definition points_equal :: "state \<Rightarrow> Point list \<Rightarrow> operand \<Rightarrow> bool" where
  "points_equal s pts other =
     (case other of
        OList qs \<Rightarrow> pts = qs
      | OPolyLine r \<Rightarrow> PolyLine_eq_list (heap s ! r) pts = Some True
      | OOther \<Rightarrow> False)"

text \<open>\<open>PolyLine.__eq__(self, other)\<close>\<close>

definition PolyLine_eq :: "state \<Rightarrow> ref \<Rightarrow> operand \<Rightarrow> bool option" where
  "PolyLine_eq s self other =
     (if points_equal s (points (heap s ! self)) other then Some True else None)"

section \<open>Notions used in the statements\<close>

subsection \<open>States\<close>

text \<open>
  The state after the points \<open>ps\<close> have been appended, one by one, to the object \<open>r\<close>.
\<close>

definition extend :: "ref \<Rightarrow> Point list \<Rightarrow> state \<Rightarrow> state" where
  "extend r ps s = s\<lparr>heap := (heap s)[r := (heap s ! r)\<lparr>points := points (heap s ! r) @ ps\<rparr>]\<rparr>"

text \<open>
  A state whose heap holds one polyline, at reference \<open>0\<close>, and no notification yet.
\<close>

definition one_polyline :: "listener list \<Rightarrow> Point list \<Rightarrow> state" where
  "one_polyline ls pts = \<lparr>heap = [\<lparr>listeners = ls, points = pts\<rparr>], delivered = []\<rparr>"

subsection \<open>The indices of the points that are kept\<close>

text \<open>
  The loop of \<open>_dp_simplify\<close> once more, over natural numbers and with the outcome of
  \<open>deviation\<close> for the point at index \<open>i\<close> abstracted to \<open>f i\<close>; lemma \<open>scan_scan_nat\<close>
  relates it to \<open>scan\<close>.
\<close>

fun scan_nat :: "(nat \<Rightarrow> error + real) \<Rightarrow> nat list \<Rightarrow> real \<times> nat \<Rightarrow> error + (real \<times> nat)" where
  "scan_nat f [] acc = Inr acc"
| "scan_nat f (i # rest) (maxdev, maxindex) =
     (case f i of
        Inl e \<Rightarrow> Inl e
      | Inr dev \<Rightarrow>
          if dev > maxdev then scan_nat f rest (dev, i) else scan_nat f rest (maxdev, maxindex))"

text \<open>The same loop where no deviation raises.\<close>

fun first_max :: "(nat \<Rightarrow> real) \<Rightarrow> nat list \<Rightarrow> real \<times> nat \<Rightarrow> real \<times> nat" where
  "first_max f [] acc = acc"
| "first_max f (i # rest) (maxdev, maxindex) =
     (if f i > maxdev then first_max f rest (f i, i) else first_max f rest (maxdev, maxindex))"

text \<open>The number a computation returned (and \<open>0\<close> for one that raised).\<close>

definition returned :: "error + real \<Rightarrow> real" where
  "returned r = (case r of Inl e \<Rightarrow> 0 | Inr v \<Rightarrow> v)"

definition dev_from :: "arith \<Rightarrow> Point list \<Rightarrow> nat \<Rightarrow> nat \<Rightarrow> nat \<Rightarrow> error + real" where
  "dev_from ar pts a b i = deviation ar (pts ! a) (pts ! b) (pts ! i)"

text \<open>
  The outcome of \<open>_dp_simplify\<close> for the range \<open>a .. b\<close>: the exception it raises, or the
  indices of the points it appends.  The recursion follows the code; the additional test
  that \<open>maxindex\<close> lies strictly inside the range makes it terminate for every tolerance.
  For a positive tolerance the test cannot fail where it is reached (a maximum that is not
  below the tolerance is positive, so it was found at an index of the range), and lemma
  \<open>dp_simplify_dpn\<close> shows that the code has this outcome.  For a tolerance that is not
  positive \<open>dpn\<close> says nothing about the code.
\<close>

function dpn :: "arith \<Rightarrow> Point list \<Rightarrow> real \<Rightarrow> nat \<Rightarrow> nat \<Rightarrow> error + nat list" where
  "dpn ar pts tolerance a b =
     (if b - a < 2 then Inr [a]
      else
        (case scan_nat (dev_from ar pts a b) [a + 1 ..< b] (0, 0) of
           Inl e \<Rightarrow> Inl e
         | Inr (maxdev, maxindex) \<Rightarrow>
             if maxdev < tolerance \<or> \<not> (a < maxindex \<and> maxindex < b) then Inr [a]
             else
               (case dpn ar pts tolerance a maxindex of
                  Inl e \<Rightarrow> Inl e
                | Inr left \<Rightarrow>
                    (case dpn ar pts tolerance maxindex b of
                       Inl e \<Rightarrow> Inl e
                     | Inr right \<Rightarrow> Inr (left @ right)))))"
  by pat_completeness auto
termination
  by (relation "measure (\<lambda>(ar, pts, tolerance, a, b). b - a)") auto

text \<open>
  The indices of all points of the result of \<open>approximate\<close>: those of the top-level
  call, and the last index, which \<open>approximate\<close> appends itself.
\<close>

definition kept :: "arith \<Rightarrow> Point list \<Rightarrow> real \<Rightarrow> error + nat list" where
  "kept ar pts tolerance =
     and_then (dpn ar pts tolerance 0 (length pts - 1)) (\<lambda>js. Inr (js @ [length pts - 1]))"

text \<open>
  For every point whose index lies strictly between two consecutive indices of \<open>js\<close>,
  \<open>deviation\<close> from the line through the points at these two indices returns a number
  below the tolerance.
\<close>

fun within_tolerance :: "arith \<Rightarrow> Point list \<Rightarrow> real \<Rightarrow> nat list \<Rightarrow> bool" where
  "within_tolerance ar pts tolerance (j # k # js) =
     ((\<forall>i \<in> {j <..< k}.
         case deviation ar (pts ! j) (pts ! k) (pts ! i) of
           Inl e \<Rightarrow> False
         | Inr dev \<Rightarrow> dev < tolerance)
      \<and> within_tolerance ar pts tolerance (k # js))"
| "within_tolerance ar pts tolerance js = True"

subsection \<open>Polylines of the scenarios and examples\<close>

text \<open>
  The polyline of the specification's first scenario; three points on a line; and five
  points whose second, third and fourth point lie on one line that is parallel to the line
  through the first and the last.
\<close>

definition line4 :: "Point list" where
  "line4 = [Point 0 0, Point 1 (1/10), Point 2 (- 1/10), Point 3 0]"

definition collinear3 :: "Point list" where
  "collinear3 = [Point 0 0, Point 1 0, Point 2 0]"

definition zigzag5 :: "Point list" where
  "zigzag5 = [Point 0 0, Point 0 1, Point (- 1) 1, Point 2 1, Point 5 0]"

text \<open>
  Three points whose last lies so far to the right that the slope of the line from the
  first to the last is below the smallest magnitude of a float.
\<close>

definition far :: real where
  "far = 10 ^ 400"

definition steep3 :: "Point list" where
  "steep3 = [Point 0 0, Point 1 1, Point far 2]"

text \<open>
  An arithmetic with the underflow of floats: exact, except that a quotient of magnitude
  below \<open>1 / 2 ^ 1075\<close> (half the smallest positive float) is rounded to zero, as the
  division of the interpreter does.  On \<open>steep3\<close> it performs the operations of the
  interpreter: the differences \<open>2 - 0\<close> and \<open>10 ^ 400 - 0\<close> of ints are exact, their
  quotient is \<open>0.0\<close>, and \<open>1.0 / 0.0\<close> raises.
\<close>

definition underflowing :: arith where
  "underflowing =
     exact\<lparr>n_div := (\<lambda>a b. if b = 0 then Inl ZeroDivisionError
                            else if \<bar>a / b\<bar> < 1 / 2 ^ 1075 then Inr 0
                            else Inr (a / b))\<rparr>"

text \<open>
  The equations of \<open>_dp_simplify\<close> and of \<open>dpn\<close> are unfolded by hand, one call at a
  time.
\<close>

declare dp_simplify.simps [simp del]

declare dpn.simps [simp del]

section \<open>The geometric primitives\<close>

lemma and_then_Inl [simp]: "and_then (Inl e) f = Inl e"
  by (simp add: and_then_def)

lemma and_then_Inr [simp]: "and_then (Inr v) f = f v"
  by (simp add: and_then_def)

lemma exact_ops [simp]:
  "n_sub exact a b = Inr (a - b)"
  "n_mul exact a b = Inr (a * b)"
  "n_add exact a b = Inr (a + b)"
  "n_div exact a b = (if b = 0 then Inl ZeroDivisionError else Inr (a / b))"
  "n_sqrt exact a = (if a < 0 then Inl ValueError else Inr (sqrt a))"
  by (simp_all add: exact_def)

text \<open>In exact arithmetic no divisor of the general branch is zero.\<close>

lemma general_divisors:
  assumes "p_x p2 \<noteq> p_x p1" "p_y p2 \<noteq> p_y p1"
  shows "p_x p2 - p_x p1 \<noteq> 0"
    and "(p_y p2 - p_y p1) / (p_x p2 - p_x p1) \<noteq> 0"
    and "0 - 1 / ((p_y p2 - p_y p1) / (p_x p2 - p_x p1))
           - (p_y p2 - p_y p1) / (p_x p2 - p_x p1) \<noteq> 0"
proof -
  define m where "m = (p_y p2 - p_y p1) / (p_x p2 - p_x p1)"
  show "p_x p2 - p_x p1 \<noteq> 0" using assms by simp
  have m: "m \<noteq> 0" using assms by (simp add: m_def)
  then show "(p_y p2 - p_y p1) / (p_x p2 - p_x p1) \<noteq> 0" by (simp add: m_def)
  have "m * (0 - 1 / m - m) = - 1 - m * m" using m by (simp add: algebra_simps)
  moreover have "0 \<le> m * m" by simp
  ultimately have "m * (0 - 1 / m - m) < 0" by linarith
  then have "0 - 1 / m - m \<noteq> 0" by auto
  then show "0 - 1 / ((p_y p2 - p_y p1) / (p_x p2 - p_x p1))
               - (p_y p2 - p_y p1) / (p_x p2 - p_x p1) \<noteq> 0"
    by (simp add: m_def)
qed

lemma normal_intercept_vertical:
  "p_x p2 = p_x p1 \<Longrightarrow> normal_intercept ar p1 p2 p = Inr (Point (p_x p1) (p_y p))"
  by (simp add: normal_intercept_def)

lemma normal_intercept_horizontal:
  "p_x p2 \<noteq> p_x p1 \<Longrightarrow> p_y p2 = p_y p1
   \<Longrightarrow> normal_intercept ar p1 p2 p = Inr (Point (p_x p) (p_y p1))"
  by (simp add: normal_intercept_def)

lemma normal_intercept_exact_general:
  assumes "p_x p2 \<noteq> p_x p1" "p_y p2 \<noteq> p_y p1"
  shows "normal_intercept exact p1 p2 p =
     Inr (let seg_slope = (p_y p2 - p_y p1) / (p_x p2 - p_x p1);
              normal_slope = 0 - (1 / seg_slope);
              seg_b = p_y p1 - seg_slope * p_x p1;
              normal_b = p_y p - normal_slope * p_x p;
              x_intersect = (seg_b - normal_b) / (normal_slope - seg_slope)
          in Point x_intersect (seg_slope * x_intersect + seg_b))"
proof -
  note d = general_divisors[OF assms]
  show ?thesis
    unfolding normal_intercept_def
    by (simp only: assms d if_False exact_ops and_then_Inr Let_def)
qed


section \<open>What a run may change\<close>

lemma extend_Nil: "extend r [] s = s"
  by (simp add: extend_def)

lemma append_extend: "append r p s = extend r [p] s"
  by (simp add: append_def extend_def)

lemma extend_extend: "r < length (heap s) \<Longrightarrow> extend r qs (extend r ps s) = extend r (ps @ qs) s"
  by (simp add: extend_def)

lemma heap_extend_other: "r' \<noteq> r \<Longrightarrow> heap (extend r ps s) ! r' = heap s ! r'"
  by (simp add: extend_def)

lemma length_heap_extend: "length (heap (extend r ps s)) = length (heap s)"
  by (simp add: extend_def)

lemma delivered_extend: "delivered (extend r ps s) = delivered s"
  by (simp add: extend_def)

lemma points_of_new:
  "points (heap (extend (length (heap s)) ps (snd (PolyLine_init s))) ! length (heap s)) = ps"
  by (simp add: extend_def PolyLine_init_def)

lemma length_heap_new:
  "length (heap (extend r ps (snd (PolyLine_init s)))) = Suc (length (heap s))"
  by (simp add: extend_def PolyLine_init_def)

lemma dp_simplify_extends:
  "approx < length (heap s)
   \<Longrightarrow> dp_simplify ar depth self approx tolerance from_index to_index s = Some (res, s')
   \<Longrightarrow> \<exists>ps. s' = extend approx ps s"
proof (induction depth arbitrary: from_index to_index s res s')
  case 0
  then show ?case by (simp add: dp_simplify.simps)
next
  case (Suc depth)
  show ?case
  proof (cases "to_index - from_index < 2")
    case True
    with Suc.prems(2) show ?thesis
      by (auto simp add: dp_simplify.simps append_extend split: sum.splits
          intro: extend_Nil[symmetric])
  next
    case False
    show ?thesis
    proof (cases "scan ar (points (heap s ! self)) from_index to_index
                    [from_index + 1 .. to_index - 1] (0, 0)")
      case (Inl e)
      with False Suc.prems(2) show ?thesis
        by (auto simp add: dp_simplify.simps intro: extend_Nil[symmetric])
    next
      case (Inr acc)
      obtain maxdev maxindex where acc: "acc = (maxdev, maxindex)" by (cases acc)
      show ?thesis
      proof (cases "maxdev < tolerance")
        case True
        with False Inr acc Suc.prems(2) show ?thesis
          by (auto simp add: dp_simplify.simps append_extend split: sum.splits
              intro: extend_Nil[symmetric])
      next
        case nf: False
        from False Inr acc nf Suc.prems(2) obtain r1 s1 where
          l: "dp_simplify ar depth self approx tolerance from_index maxindex s = Some (r1, s1)"
          by (auto simp add: dp_simplify.simps split: option.splits)
        from Suc.IH[OF Suc.prems(1) l] obtain ps where s1: "s1 = extend approx ps s" by blast
        show ?thesis
        proof (cases r1)
          case (Inl e)
          with False Inr acc nf Suc.prems(2) l s1 show ?thesis
            by (auto simp add: dp_simplify.simps)
        next
          case (Inr u)
          with False \<open>scan _ _ _ _ _ _ = Inr acc\<close> acc nf Suc.prems(2) l have
            r: "dp_simplify ar depth self approx tolerance maxindex to_index s1 = Some (res, s')"
            by (auto simp add: dp_simplify.simps)
          have "approx < length (heap s1)" using Suc.prems(1) s1 by (simp add: length_heap_extend)
          from Suc.IH[OF this r] obtain qs where "s' = extend approx qs s1" by blast
          with s1 Suc.prems(1) show ?thesis by (auto simp add: extend_extend)
        qed
      qed
    qed
  qed
qed

section \<open>One call of \<open>_dp_simplify\<close>, and the end of \<open>approximate\<close>\<close>

lemma getitem_nat: "i < length xs \<Longrightarrow> getitem xs (int i) = Inr (xs ! i)"
  by (simp add: getitem_def)

lemma getitem_last: "xs \<noteq> [] \<Longrightarrow> getitem xs (- 1) = Inr (last xs)"
proof -
  assume "xs \<noteq> []"
  then have "0 < length xs" by simp
  then have "nat (int (length xs) + - 1) = length xs - 1" by arith
  with \<open>xs \<noteq> []\<close> show ?thesis by (simp add: getitem_def last_conv_nth)
qed

lemma dp_simplify_base:
  "to_index - from_index < 2 \<Longrightarrow> getitem (points (heap s ! self)) from_index = Inr p
   \<Longrightarrow> dp_simplify ar (Suc depth) self approx tolerance from_index to_index s
       = Some (Inr (), extend approx [p] s)"
  by (simp add: dp_simplify.simps append_extend)

lemma dp_simplify_final:
  "\<not> to_index - from_index < 2
   \<Longrightarrow> scan ar (points (heap s ! self)) from_index to_index [from_index + 1 .. to_index - 1] (0, 0)
         = Inr (maxdev, maxindex)
   \<Longrightarrow> maxdev < tolerance
   \<Longrightarrow> getitem (points (heap s ! self)) from_index = Inr p
   \<Longrightarrow> dp_simplify ar (Suc depth) self approx tolerance from_index to_index s
       = Some (Inr (), extend approx [p] s)"
  by (simp add: dp_simplify.simps append_extend)

lemma dp_simplify_raises:
  "\<not> to_index - from_index < 2
   \<Longrightarrow> scan ar (points (heap s ! self)) from_index to_index [from_index + 1 .. to_index - 1] (0, 0)
         = Inl e
   \<Longrightarrow> dp_simplify ar (Suc depth) self approx tolerance from_index to_index s = Some (Inl e, s)"
  by (simp add: dp_simplify.simps)

lemma dp_simplify_split:
  "\<not> to_index - from_index < 2
   \<Longrightarrow> scan ar (points (heap s ! self)) from_index to_index [from_index + 1 .. to_index - 1] (0, 0)
         = Inr (maxdev, maxindex)
   \<Longrightarrow> \<not> maxdev < tolerance
   \<Longrightarrow> dp_simplify ar depth self approx tolerance from_index maxindex s = Some (Inr (), s1)
   \<Longrightarrow> dp_simplify ar (Suc depth) self approx tolerance from_index to_index s
       = dp_simplify ar depth self approx tolerance maxindex to_index s1"
  by (simp add: dp_simplify.simps)

lemma dp_simplify_split_raises:
  "\<not> to_index - from_index < 2
   \<Longrightarrow> scan ar (points (heap s ! self)) from_index to_index [from_index + 1 .. to_index - 1] (0, 0)
         = Inr (maxdev, maxindex)
   \<Longrightarrow> \<not> maxdev < tolerance
   \<Longrightarrow> dp_simplify ar depth self approx tolerance from_index maxindex s = Some (Inl e, s1)
   \<Longrightarrow> dp_simplify ar (Suc depth) self approx tolerance from_index to_index s = Some (Inl e, s1)"
  by (simp add: dp_simplify.simps)

lemma dp_simplify_split_both:
  assumes "\<not> to_index - from_index < 2"
    and "scan ar (points (heap s ! self)) from_index to_index [from_index + 1 .. to_index - 1] (0, 0)
           = Inr (maxdev, maxindex)"
    and "\<not> maxdev < tolerance"
    and "dp_simplify ar depth self approx tolerance from_index maxindex s
           = Some (Inr (), extend approx ps s)"
    and "dp_simplify ar depth self approx tolerance maxindex to_index (extend approx ps s)
           = Some (Inr (), extend approx qs (extend approx ps s))"
    and "approx < length (heap s)"
  shows "dp_simplify ar (Suc depth) self approx tolerance from_index to_index s
           = Some (Inr (), extend approx (ps @ qs) s)"
  using dp_simplify_split[OF assms(1-4)] assms(5,6) by (simp add: extend_extend)

lemma approximate_returns:
  "dp_simplify ar depth self (length (heap s)) tolerance 0 (int (length (points (heap s ! self))) - 1)
      (snd (PolyLine_init s)) = Some (Inr (), extend (length (heap s)) ps (snd (PolyLine_init s)))
   \<Longrightarrow> self < length (heap s) \<Longrightarrow> points (heap s ! self) \<noteq> []
   \<Longrightarrow> approximate ar depth self tolerance s
       = Some (Inr (length (heap s)),
               extend (length (heap s)) (ps @ [last (points (heap s ! self))]) (snd (PolyLine_init s)))"
  by (simp add: approximate_def PolyLine_init_def nth_append getitem_last append_extend
      extend_extend heap_extend_other)

lemma approximate_raises:
  "dp_simplify ar depth self (length (heap s)) tolerance 0 (int (length (points (heap s ! self))) - 1)
      (snd (PolyLine_init s)) = Some (Inl e, s1)
   \<Longrightarrow> self < length (heap s)
   \<Longrightarrow> approximate ar depth self tolerance s = Some (Inl e, s1)"
  by (simp add: approximate_def PolyLine_init_def nth_append)

section \<open>The loop\<close>

lemma map_int_upt: "map int [a ..< b] = [int a .. int b - 1]"
proof (induction b)
  case 0
  then show ?case by simp
next
  case (Suc b)
  show ?case
  proof (cases "a \<le> b")
    case True
    then have "[int a .. int (Suc b) - 1] = [int a .. int b - 1] @ [int b]"
      using upto_rec2[of "int a" "int b"] by simp
    with Suc True show ?thesis by simp
  next
    case False
    then show ?thesis by simp
  qed
qed

lemma scan_scan_nat:
  assumes "a < length pts" "b < length pts" "\<forall>i \<in> set js. i < length pts"
  shows "scan ar pts (int a) (int b) (map int js) (md, int mi)
           = (case scan_nat (dev_from ar pts a b) js (md, mi) of
                Inl e \<Rightarrow> Inl e
              | Inr (d, m) \<Rightarrow> Inr (d, int m))"
  using assms(3)
proof (induction js arbitrary: md mi)
  case Nil
  then show ?case by simp
next
  case (Cons j js)
  then show ?case
    using assms(1,2) by (simp add: getitem_nat dev_from_def split: sum.splits)
qed

lemma returned_Inr [simp]: "returned (Inr v) = v"
  by (simp add: returned_def)

text \<open>A loop that returns has met no exception, and is the loop over the numbers.\<close>

lemma scan_nat_returns:
  "scan_nat f xs acc = Inr r
   \<Longrightarrow> (\<forall>x \<in> set xs. f x = Inr (returned (f x))) \<and> r = first_max (\<lambda>x. returned (f x)) xs acc"
proof (induction xs arbitrary: acc)
  case Nil
  then show ?case by simp
next
  case (Cons x xs)
  obtain maxdev maxindex where acc: "acc = (maxdev, maxindex)" by (cases acc)
  from Cons.prems acc obtain dev where dev: "f x = Inr dev"
    by (cases "f x") auto
  show ?case
  proof (cases "dev > maxdev")
    case True
    with Cons.prems acc dev have "scan_nat f xs (dev, x) = Inr r" by simp
    from Cons.IH[OF this] True acc dev show ?thesis by simp
  next
    case False
    with Cons.prems acc dev have "scan_nat f xs (maxdev, maxindex) = Inr r" by simp
    from Cons.IH[OF this] False acc dev show ?thesis by simp
  qed
qed

lemma scan_nat_first_max:
  "\<forall>x \<in> set xs. f x = Inr (g x) \<Longrightarrow> scan_nat f xs acc = Inr (first_max g xs acc)"
proof (induction xs arbitrary: acc)
  case Nil
  then show ?case by simp
next
  case (Cons x xs)
  then show ?case by (cases acc) simp
qed

lemma first_max_ge:
  "first_max f xs (md0, mi0) = (md, mi)
   \<Longrightarrow> md0 \<le> md \<and> (md = md0 \<longrightarrow> mi = mi0) \<and> (\<forall>x \<in> set xs. f x \<le> md)"
proof (induction xs arbitrary: md0 mi0)
  case Nil
  then show ?case by simp
next
  case (Cons x xs)
  show ?case
  proof (cases "f x > md0")
    case True
    with Cons.prems have "first_max f xs (f x, x) = (md, mi)" by simp
    from Cons.IH[OF this] True show ?thesis by auto
  next
    case False
    with Cons.prems have "first_max f xs (md0, mi0) = (md, mi)" by simp
    from Cons.IH[OF this] False show ?thesis by auto
  qed
qed

lemma first_max_found:
  "sorted_wrt (<) xs \<Longrightarrow> first_max f xs (md0, mi0) = (md, mi) \<Longrightarrow> md0 < md
   \<Longrightarrow> mi \<in> set xs \<and> f mi = md \<and> (\<forall>x \<in> set xs. x < mi \<longrightarrow> f x < md)"
proof (induction xs arbitrary: md0 mi0)
  case Nil
  then show ?case by simp
next
  case (Cons x xs)
  from Cons.prems(1) have sx: "sorted_wrt (<) xs" and lt: "\<forall>y \<in> set xs. x < y" by auto
  show ?case
  proof (cases "f x > md0")
    case True
    with Cons.prems have r: "first_max f xs (f x, x) = (md, mi)" by simp
    show ?thesis
    proof (cases "md = f x")
      case True
      with first_max_ge[OF r] have "mi = x" by simp
      with True lt show ?thesis by fastforce
    next
      case False
      with first_max_ge[OF r] have "f x < md" by simp
      from Cons.IH[OF sx r this] lt \<open>f x < md\<close> show ?thesis by auto
    qed
  next
    case False
    with Cons.prems have r: "first_max f xs (md0, mi0) = (md, mi)" by simp
    from Cons.IH[OF sx r Cons.prems(3)] lt False Cons.prems(3) show ?thesis by auto
  qed
qed

lemma first_max_unique:
  "sorted_wrt (<) xs \<Longrightarrow> m \<in> set xs \<Longrightarrow> md0 < f m \<Longrightarrow> \<forall>x \<in> set xs. f x \<le> f m
   \<Longrightarrow> \<forall>x \<in> set xs. x < m \<longrightarrow> f x < f m
   \<Longrightarrow> first_max f xs (md0, mi0) = (f m, m)"
proof -
  assume a: "sorted_wrt (<) xs" "m \<in> set xs" "md0 < f m" "\<forall>x \<in> set xs. f x \<le> f m"
    "\<forall>x \<in> set xs. x < m \<longrightarrow> f x < f m"
  obtain md mi where r: "first_max f xs (md0, mi0) = (md, mi)" by (cases "first_max f xs (md0, mi0)")
  from first_max_ge[OF r] a(2) have ge: "f m \<le> md" by auto
  with a(3) have lt: "md0 < md" by simp
  from first_max_found[OF a(1) r lt] have f: "mi \<in> set xs" "f mi = md" "\<forall>x \<in> set xs. x < mi \<longrightarrow> f x < md"
    by auto
  from f(1,2) a(4) ge have eq: "md = f m" by fastforce
  have "mi = m"
  proof (rule ccontr)
    assume "mi \<noteq> m"
    then consider "mi < m" | "m < mi" by linarith
    then show False
    proof cases
      case 1
      with a(5) f(1) have "f mi < f m" by auto
      with f(2) eq show False by simp
    next
      case 2
      with f(3) a(2) have "f m < md" by auto
      with eq show False by simp
    qed
  qed
  with r eq show ?thesis by simp
qed

text \<open>
  What a loop over a range that returns has found: all deviations are numbers, none above
  the maximum; and a positive maximum is the deviation at \<open>maxindex\<close>, an index of the
  range, with smaller deviations before it.
\<close>

lemma scan_nat_range:
  assumes "scan_nat f [a + 1 ..< b] (0, 0) = Inr (maxdev, maxindex)"
  shows "\<forall>x. a < x \<and> x < b \<longrightarrow> f x = Inr (returned (f x)) \<and> returned (f x) \<le> maxdev"
    and "0 \<le> maxdev"
    and "0 < maxdev \<Longrightarrow> a < maxindex \<and> maxindex < b \<and> f maxindex = Inr maxdev
           \<and> (\<forall>x. a < x \<and> x < maxindex \<longrightarrow> returned (f x) < maxdev)"
    and "a < maxindex \<Longrightarrow> 0 < maxdev"
proof -
  let ?g = "\<lambda>x. returned (f x)"
  from scan_nat_returns[OF assms] have
    v: "\<forall>x \<in> set [a + 1 ..< b]. f x = Inr (?g x)"
    and fm: "first_max ?g [a + 1 ..< b] (0, 0) = (maxdev, maxindex)" by simp_all
  from first_max_ge[OF fm] have ge: "0 \<le> maxdev" "maxdev = 0 \<longrightarrow> maxindex = 0"
    "\<forall>x \<in> set [a + 1 ..< b]. ?g x \<le> maxdev" by auto
  show "\<forall>x. a < x \<and> x < b \<longrightarrow> f x = Inr (returned (f x)) \<and> returned (f x) \<le> maxdev"
    using v ge(3) by auto
  show "0 \<le> maxdev" by (rule ge(1))
  show "a < maxindex \<Longrightarrow> 0 < maxdev" using ge(1,2) by (cases "maxdev = 0") auto
  assume pos: "0 < maxdev"
  from first_max_found[OF _ fm pos] have
    f: "maxindex \<in> set [a + 1 ..< b]" "?g maxindex = maxdev"
    "\<forall>x \<in> set [a + 1 ..< b]. x < maxindex \<longrightarrow> ?g x < maxdev" by auto
  from f(1) v have "f maxindex = Inr (?g maxindex)" by blast
  with f show "a < maxindex \<and> maxindex < b \<and> f maxindex = Inr maxdev
           \<and> (\<forall>x. a < x \<and> x < maxindex \<longrightarrow> returned (f x) < maxdev)"
    by auto
qed

section \<open>The indices kept\<close>

lemma dpn_leaf: "b - a < 2 \<Longrightarrow> dpn ar pts tolerance a b = Inr [a]"
  by (simp add: dpn.simps)

lemma dpn_raises:
  "\<not> b - a < 2 \<Longrightarrow> scan_nat (dev_from ar pts a b) [a + 1 ..< b] (0, 0) = Inl e
   \<Longrightarrow> dpn ar pts tolerance a b = Inl e"
  by (subst dpn.simps) simp

lemma dpn_stop:
  "scan_nat (dev_from ar pts a b) [a + 1 ..< b] (0, 0) = Inr (maxdev, maxindex)
   \<Longrightarrow> maxdev < tolerance \<or> \<not> (a < maxindex \<and> maxindex < b)
   \<Longrightarrow> dpn ar pts tolerance a b = Inr [a]"
  by (subst dpn.simps) auto

lemma dpn_split:
  "\<not> b - a < 2 \<Longrightarrow> scan_nat (dev_from ar pts a b) [a + 1 ..< b] (0, 0) = Inr (maxdev, maxindex)
   \<Longrightarrow> \<not> maxdev < tolerance \<Longrightarrow> a < maxindex \<Longrightarrow> maxindex < b
   \<Longrightarrow> dpn ar pts tolerance a b
       = (case dpn ar pts tolerance a maxindex of
            Inl e \<Rightarrow> Inl e
          | Inr left \<Rightarrow>
              (case dpn ar pts tolerance maxindex b of
                 Inl e \<Rightarrow> Inl e
               | Inr right \<Rightarrow> Inr (left @ right)))"
  by (subst dpn.simps) simp

text \<open>
  An induction rule for the ranges where \<open>dpn\<close> returns indices: the range is short; or
  the loop has returned and the range yields its first index alone; or the range is split
  at an index strictly inside it, where the deviation is positive and maximal, and both
  parts return indices.
\<close>

lemma dpn_cases [consumes 1, case_names small stop split]:
  assumes "dpn ar pts tolerance a b = Inr js"
    and small: "\<And>a b. b - a < 2 \<Longrightarrow> P a b [a]"
    and stop: "\<And>a b maxdev maxindex.
      \<not> b - a < 2 \<Longrightarrow> scan_nat (dev_from ar pts a b) [a + 1 ..< b] (0, 0) = Inr (maxdev, maxindex)
      \<Longrightarrow> maxdev < tolerance \<or> \<not> (a < maxindex \<and> maxindex < b) \<Longrightarrow> P a b [a]"
    and split: "\<And>a b maxdev maxindex left right.
      \<not> b - a < 2 \<Longrightarrow> scan_nat (dev_from ar pts a b) [a + 1 ..< b] (0, 0) = Inr (maxdev, maxindex)
      \<Longrightarrow> \<not> maxdev < tolerance \<Longrightarrow> 0 < maxdev \<Longrightarrow> a < maxindex \<Longrightarrow> maxindex < b
      \<Longrightarrow> dpn ar pts tolerance a maxindex = Inr left \<Longrightarrow> dpn ar pts tolerance maxindex b = Inr right
      \<Longrightarrow> P a maxindex left \<Longrightarrow> P maxindex b right \<Longrightarrow> P a b (left @ right)"
  shows "P a b js"
  using assms(1)
proof (induction "b - a" arbitrary: a b js rule: less_induct)
  case less
  show ?case
  proof (cases "b - a < 2")
    case True
    with less.prems have "js = [a]" by (simp add: dpn_leaf)
    with small[OF True] show ?thesis by simp
  next
    case False
    show ?thesis
    proof (cases "scan_nat (dev_from ar pts a b) [a + 1 ..< b] (0, 0)")
      case (Inl e)
      from dpn_raises[OF False Inl] less.prems show ?thesis by simp
    next
      case (Inr acc)
      obtain maxdev maxindex where acc: "acc = (maxdev, maxindex)" by (cases acc)
      note sc = Inr[unfolded acc]
      show ?thesis
      proof (cases "maxdev < tolerance \<or> \<not> (a < maxindex \<and> maxindex < b)")
        case True
        from dpn_stop[OF sc True] less.prems have "js = [a]" by simp
        with stop[OF False sc True] show ?thesis by simp
      next
        case nl: False
        then have c: "\<not> maxdev < tolerance" "a < maxindex" "maxindex < b" by auto
        from scan_nat_range(4)[OF sc c(2)] have pos: "0 < maxdev" .
        note eq = dpn_split[OF False sc c]
        from eq less.prems obtain left where l: "dpn ar pts tolerance a maxindex = Inr left"
          by (cases "dpn ar pts tolerance a maxindex") auto
        from eq less.prems l obtain right where r: "dpn ar pts tolerance maxindex b = Inr right"
          by (cases "dpn ar pts tolerance maxindex b") auto
        from eq less.prems l r have js: "js = left @ right" by simp
        have "P a maxindex left" using c l by (intro less.hyps) auto
        moreover have "P maxindex b right" using c r by (intro less.hyps) auto
        ultimately show ?thesis
          unfolding js by (intro split[OF False sc c(1) pos c(2,3) l r])
      qed
    qed
  qed
qed

lemma dpn_hd: "dpn ar pts tolerance a b = Inr js \<Longrightarrow> js \<noteq> [] \<and> hd js = a"
  by (induction rule: dpn_cases) auto

lemma dpn_sorted:
  "dpn ar pts tolerance a b = Inr js \<Longrightarrow> a < b \<longrightarrow> sorted_wrt (<) js \<and> set js \<subseteq> {a ..< b}"
  by (induction rule: dpn_cases) (auto simp add: sorted_wrt_append, fastforce+)

lemma length_dpn:
  assumes "dpn ar pts tolerance a b = Inr js"
  shows "length js \<le> max 1 (b - a)"
proof (cases "a < b")
  case True
  with dpn_sorted[OF assms] have s: "sorted_wrt (<) js" "set js \<subseteq> {a ..< b}" by auto
  from s(1) have "distinct js"
    using strict_sorted_iff by (metis sorted_wrt.simps distinct_conv_nth sorted_wrt_nth_less less_irrefl)
  then have "length js = card (set js)" by (simp add: distinct_card)
  also have "\<dots> \<le> card {a ..< b}" using s(2) by (intro card_mono) auto
  finally show ?thesis by simp
next
  case False
  with assms show ?thesis by (auto simp add: dpn_leaf)
qed


lemma dpn_nth_bounds:
  assumes "dpn ar pts tolerance a b = Inr js" "a < b" "k < length js"
  shows "a \<le> js ! k" "js ! k < b" "0 < k \<Longrightarrow> a < js ! k"
proof -
  from dpn_sorted[OF assms(1)] assms(2)
  have s: "sorted_wrt (<) js" "set js \<subseteq> {a ..< b}" by auto
  from s(2) assms(3) have "js ! k \<in> {a ..< b}" using nth_mem by blast
  then show "a \<le> js ! k" "js ! k < b" by auto
  assume "0 < k"
  from sorted_wrt_nth_less[OF s(1) this assms(3)] have "js ! 0 < js ! k" .
  moreover have "js ! 0 = a" using dpn_hd[OF assms(1)] by (metis hd_conv_nth)
  ultimately show "a < js ! k" by simp
qed

text \<open>
  Simplifying again: in the list of kept points, the range that corresponds to \<open>a .. b\<close>
  is split at the same points as before, down to ranges of two neighbours.  Every deviation
  that the second run computes was computed, from the same three points, by the first.
\<close>

lemma dpn_resimplify:
  assumes "dpn ar pts tolerance a b = Inr js"
  shows "dpn ar (map ((!) pts) (pre @ js @ b # post)) tolerance (length pre) (length pre + length js)
           = Inr [length pre ..< length pre + length js]"
  using assms
proof (induction arbitrary: pre post rule: dpn_cases)
  case (small a b)
  then show ?case by (simp add: dpn_leaf)
next
  case (stop a b maxdev maxindex)
  then show ?case by (simp add: dpn_leaf)
next
  case (split a b maxdev maxindex J1 J2)
  let ?I = "pre @ J1 @ J2 @ b # post"
  let ?qs = "map ((!) pts) ?I"
  let ?a' = "length pre"
  let ?c' = "length pre + length J1"
  let ?b' = "length pre + length J1 + length J2"
  let ?f = "dev_from ar pts a b"
  let ?g = "dev_from ar ?qs ?a' ?b'"
  have ne: "J1 \<noteq> []" "J2 \<noteq> []" "hd J1 = a" "hd J2 = maxindex"
    using dpn_hd[OF split.hyps(7)] dpn_hd[OF split.hyps(8)] by auto
  then have len: "0 < length J1" "0 < length J2" by auto
  have Ia: "?I ! ?a' = a" using ne by (simp add: nth_append hd_conv_nth)
  have Ic: "?I ! ?c' = maxindex" using ne by (simp add: nth_append hd_conv_nth)
  have Ib: "?I ! ?b' = b" by (simp add: nth_append)
  have I1: "?I ! x = J1 ! (x - ?a')" if "?a' \<le> x" "x < ?c'" for x
  proof -
    from that have "x - ?a' < length J1" "\<not> x < ?a'" by linarith+
    then show ?thesis by (simp add: nth_append)
  qed
  have I2: "?I ! x = J2 ! (x - ?c')" if "?c' \<le> x" "x < ?b'" for x
  proof -
    from that have k: "x - ?c' < length J2" "\<not> x < ?a'" "\<not> x - ?a' < length J1" by linarith+
    have "x - ?a' - length J1 = x - ?c'" by simp
    with k show ?thesis by (simp add: nth_append)
  qed
  have nm: "?qs ! i = pts ! (?I ! i)" if "i < length ?I" for i
    using that by (rule nth_map)
  have g: "?g x = ?f (?I ! x)" if "x < length ?I" for x
  proof -
    have "?a' < length ?I" "?b' < length ?I" by simp_all
    then have "?qs ! ?a' = pts ! a" "?qs ! ?b' = pts ! b" using nm Ia Ib by (simp_all only:)
    moreover from that have "?qs ! x = pts ! (?I ! x)" by (rule nm)
    ultimately show ?thesis by (simp only: dev_from_def)
  qed
  have mid: "a < ?I ! x \<and> ?I ! x < b \<and> (x < ?c' \<longrightarrow> ?I ! x < maxindex)"
    if x: "?a' < x" "x < ?b'" for x
  proof (cases "x < ?c'")
    case True
    with x have k: "x - ?a' < length J1" "0 < x - ?a'" by auto
    from dpn_nth_bounds[OF split.hyps(7) split.hyps(5) k(1)] k(2) I1[of x] x True split.hyps(6)
    show ?thesis by auto
  next
    case False
    with x have k: "x - ?c' < length J2" by auto
    from dpn_nth_bounds(1,2)[OF split.hyps(8) split.hyps(6) k] I2[of x] x False split.hyps(5)
    show ?thesis by auto
  qed
  note rng = scan_nat_range[OF split.hyps(2)]
  from rng(3)[OF split.hyps(4)] have
    fnd: "?f maxindex = Inr maxdev" "\<forall>x. a < x \<and> x < maxindex \<longrightarrow> returned (?f x) < maxdev"
    by auto
  have gx: "?g x = Inr (returned (?g x)) \<and> returned (?g x) \<le> maxdev
            \<and> (x < ?c' \<longrightarrow> returned (?g x) < maxdev)"
    if x: "?a' < x" "x < ?b'" for x
  proof -
    from x have "x < length ?I" by simp
    from g[OF this] have e: "?g x = ?f (?I ! x)" .
    from mid[OF x] rng(1) fnd(2) show ?thesis unfolding e by auto
  qed
  have gc: "?g ?c' = Inr maxdev" using g[of ?c'] Ic fnd(1) len by simp
  then have rc: "returned (?g ?c') = maxdev" by simp
  have "first_max (\<lambda>x. returned (?g x)) [?a' + 1 ..< ?b'] (0, 0) = (returned (?g ?c'), ?c')"
  proof (rule first_max_unique)
    show "sorted_wrt (<) [?a' + 1 ..< ?b']" by simp
    show "?c' \<in> set [?a' + 1 ..< ?b']" using len by (simp add: Suc_le_eq)
    show "0 < returned (?g ?c')" using rc split.hyps(4) by simp
    show "\<forall>x \<in> set [?a' + 1 ..< ?b']. returned (?g x) \<le> returned (?g ?c')"
    proof
      fix x assume "x \<in> set [?a' + 1 ..< ?b']"
      then have x: "?a' < x" "x < ?b'" by auto
      from gx[OF x] rc show "returned (?g x) \<le> returned (?g ?c')" by simp
    qed
    show "\<forall>x \<in> set [?a' + 1 ..< ?b']. x < ?c' \<longrightarrow> returned (?g x) < returned (?g ?c')"
    proof (intro ballI impI)
      fix x assume "x \<in> set [?a' + 1 ..< ?b']" and xc: "x < ?c'"
      then have x: "?a' < x" "x < ?b'" by auto
      from gx[OF x] xc rc show "returned (?g x) < returned (?g ?c')" by simp
    qed
  qed
  moreover have "\<forall>x \<in> set [?a' + 1 ..< ?b']. ?g x = Inr (returned (?g x))"
  proof
    fix x assume "x \<in> set [?a' + 1 ..< ?b']"
    then have x: "?a' < x" "x < ?b'" by auto
    from gx[OF x] show "?g x = Inr (returned (?g x))" by simp
  qed
  ultimately have sc': "scan_nat ?g [?a' + 1 ..< ?b'] (0, 0) = Inr (maxdev, ?c')"
    using scan_nat_first_max[of "[?a' + 1 ..< ?b']" ?g "\<lambda>x. returned (?g x)" "(0, 0)"] rc
    by simp
  have nb: "\<not> ?b' - ?a' < 2" using len by linarith
  have cl: "?a' < ?c'" "?c' < ?b'" using len by simp_all
  note sp = dpn_split[OF nb sc' split.hyps(3) cl]
  have J2: "J2 = maxindex # tl J2" using ne by (cases J2) auto
  have "pre @ J1 @ maxindex # (tl J2 @ b # post) = ?I" using J2 by (metis append_Cons)
  with split.IH(1)[of pre "tl J2 @ b # post"]
  have l: "dpn ar ?qs tolerance ?a' ?c' = Inr [?a' ..< ?c']" by simp
  from split.IH(2)[of "pre @ J1" post]
  have r: "dpn ar ?qs tolerance ?c' ?b' = Inr [?c' ..< ?b']" by (simp add: add.assoc)
  have "[?a' ..< ?c'] @ [?c' ..< ?b'] = [?a' ..< ?b']"
    using upt_add_eq_append[of ?a' ?c' "length J2"] by simp
  with sp l r show ?case by (simp add: add.assoc)
qed

lemma kept_Inr:
  "(kept ar pts tolerance = Inr ks)
     = (\<exists>js. dpn ar pts tolerance 0 (length pts - 1) = Inr js \<and> ks = js @ [length pts - 1])"
  by (cases "dpn ar pts tolerance 0 (length pts - 1)") (auto simp add: kept_def)

lemma kept_Inl:
  "(kept ar pts tolerance = Inl e) = (dpn ar pts tolerance 0 (length pts - 1) = Inl e)"
  by (cases "dpn ar pts tolerance 0 (length pts - 1)") (auto simp add: kept_def)

lemma kept_resimplify:
  assumes "kept ar pts tolerance = Inr ks"
  shows "kept ar (map ((!) pts) ks) tolerance = Inr [0 ..< length ks]"
proof -
  from assms obtain js where
    js: "dpn ar pts tolerance 0 (length pts - 1) = Inr js" "ks = js @ [length pts - 1]"
    by (auto simp add: kept_Inr)
  from dpn_resimplify[OF js(1), of "[]" "[]"] js(2) show ?thesis
    by (simp add: kept_def)
qed


lemma length_kept:
  assumes "kept ar pts tolerance = Inr ks"
  shows "length ks - 1 \<le> max 1 (length pts - 1)" "ks \<noteq> []"
proof -
  from assms(1) obtain js where
    js: "dpn ar pts tolerance 0 (length pts - 1) = Inr js" "ks = js @ [length pts - 1]"
    by (auto simp add: kept_Inr)
  from length_dpn[OF js(1)] js(2) show "length ks - 1 \<le> max 1 (length pts - 1)" by simp
  from js(2) show "ks \<noteq> []" by simp
qed

lemma within_tolerance_join:
  "within_tolerance ar pts tolerance (xs @ [m]) \<Longrightarrow> within_tolerance ar pts tolerance (m # ys)
   \<Longrightarrow> within_tolerance ar pts tolerance (xs @ m # ys)"
proof (induction xs)
  case Nil
  then show ?case by simp
next
  case (Cons x xs)
  then show ?case by (cases xs) auto
qed

lemma dpn_within_tolerance:
  assumes "dpn ar pts tolerance a b = Inr js" "0 < tolerance"
  shows "within_tolerance ar pts tolerance (js @ [b])"
  using assms
proof (induction rule: dpn_cases)
  case (small a b)
  then have "{a <..< b} = {}" by auto
  then show ?case by simp
next
  case (stop a b maxdev maxindex)
  note rng = scan_nat_range[OF stop.hyps(2)]
  have lt: "maxdev < tolerance"
  proof (rule ccontr)
    assume "\<not> maxdev < tolerance"
    with stop.prems have "0 < maxdev" by simp
    from rng(3)[OF this] stop.hyps(3) \<open>\<not> maxdev < tolerance\<close> show False by simp
  qed
  have "case deviation ar (pts ! a) (pts ! b) (pts ! i) of Inl e \<Rightarrow> False | Inr dev \<Rightarrow> dev < tolerance"
    if "a < i" "i < b" for i
  proof -
    from rng(1) that have "dev_from ar pts a b i = Inr (returned (dev_from ar pts a b i))"
      "returned (dev_from ar pts a b i) \<le> maxdev" by auto
    with lt show ?thesis by (cases "deviation ar (pts ! a) (pts ! b) (pts ! i)") (auto simp add: dev_from_def)
  qed
  then show ?case by simp
next
  case (split a b maxdev maxindex left right)
  have J2: "right = maxindex # tl right" using dpn_hd[OF split.hyps(8)] by (cases right) auto
  from split.IH(2)[OF split.prems] have "within_tolerance ar pts tolerance (maxindex # (tl right @ [b]))"
    by (subst (asm) J2) simp
  from within_tolerance_join[OF split.IH(1)[OF split.prems] this]
  have "within_tolerance ar pts tolerance (left @ (maxindex # tl right) @ [b])"
    by simp
  then show ?case using J2 by simp
qed

lemma kept_shape:
  assumes "kept ar pts tolerance = Inr ks"
  shows "hd ks = 0" "last ks = length pts - 1" "2 \<le> length pts \<Longrightarrow> sorted_wrt (<) ks"
    "pts \<noteq> [] \<Longrightarrow> set ks \<subseteq> {0 ..< length pts}"
proof -
  from assms obtain js where
    js: "dpn ar pts tolerance 0 (length pts - 1) = Inr js" "ks = js @ [length pts - 1]"
    by (auto simp add: kept_Inr)
  show "hd ks = 0" using dpn_hd[OF js(1)] js(2) by simp
  show "last ks = length pts - 1" using js(2) by simp
  show "sorted_wrt (<) ks" if "2 \<le> length pts"
  proof -
    from that have lt: "0 < length pts - 1" by linarith
    with dpn_sorted[OF js(1)] have "sorted_wrt (<) js" "set js \<subseteq> {0 ..< length pts - 1}" by auto
    then show ?thesis unfolding js(2) by (auto simp add: sorted_wrt_append)
  qed
  show "set ks \<subseteq> {0 ..< length pts}" if "pts \<noteq> []"
  proof (cases "0 < length pts - 1")
    case True
    with dpn_sorted[OF js(1)] have "set js \<subseteq> {0 ..< length pts - 1}" by auto
    with True show ?thesis unfolding js(2) by auto
  next
    case False
    with js(1) have "js = [0]" by (simp add: dpn_leaf)
    with that show ?thesis unfolding js(2) by auto
  qed
qed

lemma kept_within_tolerance:
  "kept ar pts tolerance = Inr ks \<Longrightarrow> 0 < tolerance \<Longrightarrow> within_tolerance ar pts tolerance ks"
  by (auto simp add: kept_Inr dpn_within_tolerance)

text \<open>An exception of \<open>dpn\<close> is an exception of \<open>deviation\<close> for three points of the list.\<close>

lemma scan_nat_Inl: "scan_nat f xs acc = Inl e \<Longrightarrow> \<exists>x \<in> set xs. f x = Inl e"
proof (induction xs arbitrary: acc)
  case Nil
  then show ?case by simp
next
  case (Cons x xs)
  obtain maxdev maxindex where acc: "acc = (maxdev, maxindex)" by (cases acc)
  show ?case
  proof (cases "f x")
    case (Inl e')
    with Cons.prems acc show ?thesis by simp
  next
    case (Inr dev)
    with Cons.prems acc have "scan_nat f xs (dev, x) = Inl e \<or> scan_nat f xs (maxdev, maxindex) = Inl e"
      by (simp split: if_splits)
    with Cons.IH show ?thesis by auto
  qed
qed

lemma dpn_Inl:
  "dpn ar pts tolerance a b = Inl e
   \<Longrightarrow> \<exists>j i k. a \<le> j \<and> j < i \<and> i < k \<and> k \<le> b \<and> deviation ar (pts ! j) (pts ! k) (pts ! i) = Inl e"
proof (induction "b - a" arbitrary: a b rule: less_induct)
  case less
  from less.prems have nb: "\<not> b - a < 2" by (auto simp add: dpn_leaf)
  show ?case
  proof (cases "scan_nat (dev_from ar pts a b) [a + 1 ..< b] (0, 0)")
    case (Inl e')
    from dpn_raises[OF nb Inl] less.prems have "e' = e" by simp
    with scan_nat_Inl[OF Inl] obtain i where
      "i \<in> set [a + 1 ..< b]" "dev_from ar pts a b i = Inl e" by auto
    then have "a < i" "i < b" "dev_from ar pts a b i = Inl e" by auto
    then show ?thesis unfolding dev_from_def by (intro exI[of _ a] exI[of _ i] exI[of _ b]) simp
  next
    case (Inr acc)
    obtain maxdev maxindex where acc: "acc = (maxdev, maxindex)" by (cases acc)
    note sc = Inr[unfolded acc]
    have c: "\<not> maxdev < tolerance" "a < maxindex" "maxindex < b"
      using dpn_stop[OF sc, of tolerance] less.prems by auto
    note eq = dpn_split[OF nb sc c]
    show ?thesis
    proof (cases "dpn ar pts tolerance a maxindex")
      case l: (Inl e')
      with eq less.prems have le: "dpn ar pts tolerance a maxindex = Inl e" by simp
      have "maxindex - a < b - a" using c by linarith
      from less.hyps[OF this le] obtain j i k where
        "a \<le> j" "j < i" "i < k" "k \<le> maxindex" "deviation ar (pts ! j) (pts ! k) (pts ! i) = Inl e"
        by auto
      with c show ?thesis by (intro exI[of _ j] exI[of _ i] exI[of _ k]) simp
    next
      case l: (Inr left)
      with eq less.prems have re: "dpn ar pts tolerance maxindex b = Inl e"
        by (cases "dpn ar pts tolerance maxindex b") auto
      have "b - maxindex < b - a" using c by linarith
      from less.hyps[OF this re] obtain j i k where
        "maxindex \<le> j" "j < i" "i < k" "k \<le> b" "deviation ar (pts ! j) (pts ! k) (pts ! i) = Inl e"
        by auto
      with c show ?thesis by (intro exI[of _ j] exI[of _ i] exI[of _ k]) simp
    qed
  qed
qed

section \<open>The code and the indices kept\<close>

text \<open>
  For a positive tolerance \<open>_dp_simplify\<close> completes within a recursion depth of the
  length of the range (and at least one call).  It raises the exception of \<open>dpn\<close>, or it
  returns after appending the points at the indices of \<open>dpn\<close>.
\<close>

lemma dp_simplify_dpn:
  assumes "0 < tolerance" "self \<noteq> approx" "self < length (heap s)" "approx < length (heap s)"
    and "a \<le> b" "b < length (points (heap s ! self))" "1 \<le> depth" "b - a \<le> depth"
  shows "\<exists>ps. dp_simplify ar depth self approx tolerance (int a) (int b) s
                = Some (case dpn ar (points (heap s ! self)) tolerance a b of
                          Inl e \<Rightarrow> Inl e
                        | Inr js \<Rightarrow> Inr (),
                        extend approx ps s)
              \<and> (\<forall>js. dpn ar (points (heap s ! self)) tolerance a b = Inr js
                    \<longrightarrow> ps = map ((!) (points (heap s ! self))) js)"
  using assms(3-)
proof (induction depth arbitrary: a b s)
  case 0
  then show ?case by simp
next
  case (Suc depth)
  let ?pts = "points (heap s ! self)"
  have ga: "getitem ?pts (int a) = Inr (?pts ! a)"
    using Suc.prems by (simp add: getitem_nat)
  show ?case
  proof (cases "b - a < 2")
    case True
    then have "int b - int a < 2" by linarith
    from dp_simplify_base[OF this ga] True show ?thesis
      by (intro exI[of _ "[?pts ! a]"]) (simp add: dpn_leaf)
  next
    case False
    then have nb: "\<not> int b - int a < 2" by linarith
    have sc0: "scan ar ?pts (int a) (int b) (map int [a + 1 ..< b]) (0, int 0)
            = (case scan_nat (dev_from ar ?pts a b) [a + 1 ..< b] (0, 0) of
                 Inl e \<Rightarrow> Inl e
               | Inr (d, m) \<Rightarrow> Inr (d, int m))"
      using Suc.prems by (intro scan_scan_nat) auto
    have ui: "map int [a + 1 ..< b] = [int a + 1 .. int b - 1]"
      using map_int_upt[of "a + 1" b] by (simp add: add.commute)
    show ?thesis
    proof (cases "scan_nat (dev_from ar ?pts a b) [a + 1 ..< b] (0, 0)")
      case (Inl e)
      with sc0 ui have sc: "scan ar ?pts (int a) (int b) [int a + 1 .. int b - 1] (0, 0) = Inl e"
        by simp
      from dp_simplify_raises[OF nb sc] dpn_raises[OF False Inl] show ?thesis
        by (intro exI[of _ "[]"]) (simp add: extend_Nil)
    next
      case (Inr acc)
      obtain maxdev maxindex where acc: "acc = (maxdev, maxindex)" by (cases acc)
      note sn = Inr[unfolded acc]
      with sc0 ui have
        sc: "scan ar ?pts (int a) (int b) [int a + 1 .. int b - 1] (0, 0) = Inr (maxdev, int maxindex)"
        by simp
      show ?thesis
      proof (cases "maxdev < tolerance")
        case True
        then have "maxdev < tolerance \<or> \<not> (a < maxindex \<and> maxindex < b)" by simp
        from dp_simplify_final[OF nb sc True ga] dpn_stop[OF sn this] show ?thesis
          by (intro exI[of _ "[?pts ! a]"]) simp
      next
        case nf: False
        with assms(1) have pos: "0 < maxdev" by simp
        from scan_nat_range(3)[OF sn pos] have rng: "a < maxindex" "maxindex < b" by auto
        have d1: "1 \<le> depth" using False Suc.prems by linarith
        note eq = dpn_split[OF False sn nf rng]
        have "\<exists>ps. dp_simplify ar depth self approx tolerance (int a) (int maxindex) s
                = Some (case dpn ar ?pts tolerance a maxindex of
                          Inl e \<Rightarrow> Inl e
                        | Inr js \<Rightarrow> Inr (),
                        extend approx ps s)
              \<and> (\<forall>js. dpn ar ?pts tolerance a maxindex = Inr js \<longrightarrow> ps = map ((!) ?pts) js)"
          using Suc.prems rng d1 by (intro Suc.IH) auto
        then obtain ps where
          left: "dp_simplify ar depth self approx tolerance (int a) (int maxindex) s
                = Some (case dpn ar ?pts tolerance a maxindex of
                          Inl e \<Rightarrow> Inl e
                        | Inr js \<Rightarrow> Inr (),
                        extend approx ps s)"
          and lps: "\<forall>js. dpn ar ?pts tolerance a maxindex = Inr js \<longrightarrow> ps = map ((!) ?pts) js"
          by blast
        show ?thesis
        proof (cases "dpn ar ?pts tolerance a maxindex")
          case le: (Inl e)
          with left have
            "dp_simplify ar depth self approx tolerance (int a) (int maxindex) s
               = Some (Inl e, extend approx ps s)" by simp
          from dp_simplify_split_raises[OF nb sc nf this] eq le show ?thesis
            by (intro exI[of _ ps]) simp
        next
          case lr: (Inr J1)
          with left lps have
            l: "dp_simplify ar depth self approx tolerance (int a) (int maxindex) s
                  = Some (Inr (), extend approx (map ((!) ?pts) J1) s)" by simp
          let ?s1 = "extend approx (map ((!) ?pts) J1) s"
          have same: "points (heap ?s1 ! self) = ?pts"
            using assms(2) by (simp add: heap_extend_other)
          have "\<exists>qs. dp_simplify ar depth self approx tolerance (int maxindex) (int b) ?s1
                = Some (case dpn ar (points (heap ?s1 ! self)) tolerance maxindex b of
                          Inl e \<Rightarrow> Inl e
                        | Inr js \<Rightarrow> Inr (),
                        extend approx qs ?s1)
              \<and> (\<forall>js. dpn ar (points (heap ?s1 ! self)) tolerance maxindex b = Inr js
                    \<longrightarrow> qs = map ((!) (points (heap ?s1 ! self))) js)"
            using Suc.prems rng d1 same by (intro Suc.IH) (auto simp add: length_heap_extend)
          then obtain qs where
            right: "dp_simplify ar depth self approx tolerance (int maxindex) (int b) ?s1
                = Some (case dpn ar ?pts tolerance maxindex b of
                          Inl e \<Rightarrow> Inl e
                        | Inr js \<Rightarrow> Inr (),
                        extend approx qs ?s1)"
            and rqs: "\<forall>js. dpn ar ?pts tolerance maxindex b = Inr js \<longrightarrow> qs = map ((!) ?pts) js"
            unfolding same by blast
          have whole: "dp_simplify ar (Suc depth) self approx tolerance (int a) (int b) s
                = Some (case dpn ar ?pts tolerance maxindex b of
                          Inl e \<Rightarrow> Inl e
                        | Inr js \<Rightarrow> Inr (),
                        extend approx (map ((!) ?pts) J1 @ qs) s)"
            using dp_simplify_split[OF nb sc nf l] right Suc.prems(2) by (simp add: extend_extend)
          show ?thesis
          proof (cases "dpn ar ?pts tolerance maxindex b")
            case (Inl e)
            with whole eq lr show ?thesis
              by (intro exI[of _ "map ((!) ?pts) J1 @ qs"]) simp
          next
            case (Inr J2)
            with whole eq lr rqs show ?thesis
              by (intro exI[of _ "map ((!) ?pts) J1 @ qs"]) simp
          qed
        qed
      qed
    qed
  qed
qed

text \<open>The same for \<open>approximate\<close> and the indices \<open>kept\<close>.\<close>

lemma approximate_kept:
  assumes "0 < tolerance" "self < length (heap s)" "points (heap s ! self) \<noteq> []"
    and "1 \<le> depth" "length (points (heap s ! self)) - 1 \<le> depth"
  shows "\<exists>ps. approximate ar depth self tolerance s
                = Some (case kept ar (points (heap s ! self)) tolerance of
                          Inl e \<Rightarrow> Inl e
                        | Inr ks \<Rightarrow> Inr (length (heap s)),
                        extend (length (heap s)) ps (snd (PolyLine_init s)))
              \<and> (\<forall>ks. kept ar (points (heap s ! self)) tolerance = Inr ks
                    \<longrightarrow> ps = map ((!) (points (heap s ! self))) ks)"
proof -
  let ?pts = "points (heap s ! self)"
  let ?s0 = "snd (PolyLine_init s)"
  let ?n = "length ?pts"
  have h0: "heap ?s0 ! self = heap s ! self" "length (heap ?s0) = Suc (length (heap s))"
    using assms(2) by (simp_all add: PolyLine_init_def nth_append)
  have n: "0 < ?n" using assms(3) by simp
  then have ib: "int (?n - 1) = int ?n - 1" by linarith
  have d1: "1 \<le> depth" "?n - 1 - 0 \<le> depth" using assms(4,5) by simp_all
  have p0: "points (heap ?s0 ! self) = ?pts" using h0 by simp
  have c: "self \<noteq> length (heap s)" "self < length (heap ?s0)" "length (heap s) < length (heap ?s0)"
    "(0::nat) \<le> ?n - 1" "?n - 1 < length (points (heap ?s0 ! self))"
    using assms(2) n h0 by simp_all
  from dp_simplify_dpn[OF assms(1) c d1, of ar] obtain ps where
    run: "dp_simplify ar depth self (length (heap s)) tolerance 0 (int ?n - 1) ?s0
          = Some (case dpn ar ?pts tolerance 0 (?n - 1) of Inl e \<Rightarrow> Inl e | Inr js \<Rightarrow> Inr (),
                  extend (length (heap s)) ps ?s0)"
    and ps: "\<forall>js. dpn ar ?pts tolerance 0 (?n - 1) = Inr js \<longrightarrow> ps = map ((!) ?pts) js"
    unfolding p0 ib by auto
  show ?thesis
  proof (cases "dpn ar ?pts tolerance 0 (?n - 1)")
    case (Inl e)
    with run have "dp_simplify ar depth self (length (heap s)) tolerance 0 (int ?n - 1) ?s0
          = Some (Inl e, extend (length (heap s)) ps ?s0)" by simp
    from approximate_raises[OF this assms(2)] Inl show ?thesis
      by (intro exI[of _ ps]) (simp add: kept_def)
  next
    case (Inr js)
    with run ps have "dp_simplify ar depth self (length (heap s)) tolerance 0 (int ?n - 1) ?s0
          = Some (Inr (), extend (length (heap s)) (map ((!) ?pts) js) ?s0)" by simp
    from approximate_returns[OF this assms(2,3)] Inr assms(3) show ?thesis
      by (intro exI[of _ "map ((!) ?pts) js @ [last ?pts]"]) (simp add: kept_def last_conv_nth)
  qed
qed

text \<open>
  Summary for a positive tolerance and a polyline that is not empty: with a recursion
  depth of the number of points \<open>approximate\<close> completes.  If it returns, the result is a
  new polyline; its points are those at the indices \<open>kept\<close>, which start at the first
  index, end at the last, are strictly increasing when there are two points or more, and
  every point between two of them deviates by less than the tolerance, as \<open>deviation\<close>
  computes it.  If it raises, the exception is one that \<open>deviation\<close> raises for three
  points of the polyline.
\<close>

lemma approximate_positive_tolerance:
  assumes "0 < tolerance" "self < length (heap s)" "points (heap s ! self) \<noteq> []"
    and "length (points (heap s ! self)) \<le> depth"
  shows "\<exists>out s'. approximate ar depth self tolerance s = Some (out, s')
           \<and> (\<forall>r. out = Inr r \<longrightarrow>
                 r = length (heap s)
                 \<and> (\<exists>ks. kept ar (points (heap s ! self)) tolerance = Inr ks
                       \<and> points (heap s' ! r) = map ((!) (points (heap s ! self))) ks
                       \<and> within_tolerance ar (points (heap s ! self)) tolerance ks
                       \<and> hd ks = 0 \<and> last ks = length (points (heap s ! self)) - 1
                       \<and> (2 \<le> length (points (heap s ! self)) \<longrightarrow> sorted_wrt (<) ks)))
           \<and> (\<forall>e. out = Inl e \<longrightarrow>
                 (\<exists>j i k. j < i \<and> i < k \<and> k < length (points (heap s ! self))
                    \<and> deviation ar (points (heap s ! self) ! j) (points (heap s ! self) ! k)
                         (points (heap s ! self) ! i) = Inl e))"
proof -
  let ?pts = "points (heap s ! self)"
  have d: "1 \<le> depth" "length ?pts - 1 \<le> depth"
    using assms(3,4) by (cases ?pts; simp)+
  from approximate_kept[OF assms(1-3) d, of ar] obtain ps where
    run: "approximate ar depth self tolerance s
           = Some (case kept ar ?pts tolerance of Inl e \<Rightarrow> Inl e | Inr ks \<Rightarrow> Inr (length (heap s)),
                   extend (length (heap s)) ps (snd (PolyLine_init s)))"
    and ps: "\<forall>ks. kept ar ?pts tolerance = Inr ks \<longrightarrow> ps = map ((!) ?pts) ks"
    by blast
  show ?thesis
  proof (cases "kept ar ?pts tolerance")
    case (Inl e)
    then have "dpn ar ?pts tolerance 0 (length ?pts - 1) = Inl e" by (simp add: kept_Inl)
    from dpn_Inl[OF this] obtain j i k where
      "j < i" "i < k" "k \<le> length ?pts - 1" "deviation ar (?pts ! j) (?pts ! k) (?pts ! i) = Inl e"
      by blast
    moreover from this assms(3) have "k < length ?pts" by (cases ?pts) auto
    ultimately have "\<exists>j i k. j < i \<and> i < k \<and> k < length ?pts
        \<and> deviation ar (?pts ! j) (?pts ! k) (?pts ! i) = Inl e" by blast
    with run Inl show ?thesis by simp
  next
    case (Inr ks)
    from kept_shape(1-3)[OF Inr] kept_within_tolerance[OF Inr assms(1)] run ps Inr
    show ?thesis by (simp add: points_of_new)
  qed
qed




section \<open>Runs on the scenario and example polylines\<close>

lemma length_line4: "length line4 = 4"
  by (simp add: line4_def)

lemma scan_line4: "scan exact line4 0 3 [1 .. 2] (0, 0) = Inr (1/10, 1)"
  by (simp add: upto.simps line4_def getitem_def deviation_def normal_intercept_def real_sqrt_divide)

lemma approximate_line4:
  "approximate exact (Suc depth) 0 1 (one_polyline ls line4)
     = Some (Inr 1, \<lparr>heap = [\<lparr>listeners = ls, points = line4\<rparr>,
                             \<lparr>listeners = [], points = [Point 0 0, Point 3 0]\<rparr>],
                     delivered = []\<rparr>)"
proof -
  let ?s = "one_polyline ls line4"
  have g: "getitem line4 0 = Inr (Point 0 0)" by (simp add: line4_def getitem_def)
  have "dp_simplify exact (Suc depth) 0 (length (heap ?s)) 1 0 (int (length (points (heap ?s ! 0))) - 1)
          (snd (PolyLine_init ?s))
        = Some (Inr (), extend (length (heap ?s)) [Point 0 0] (snd (PolyLine_init ?s)))"
    by (rule dp_simplify_final[where maxdev = "1/10" and maxindex = 1])
       (simp_all add: one_polyline_def PolyLine_init_def length_line4 scan_line4 g)
  from approximate_returns[OF this] show ?thesis
    by (simp add: one_polyline_def PolyLine_init_def extend_def line4_def)
qed

lemma approximate_no_points:
  "approximate ar depth 0 tolerance (one_polyline ls []) \<noteq> Some (Inr r, s')"
  by (cases depth) (simp_all add: approximate_def PolyLine_init_def one_polyline_def
      dp_simplify.simps getitem_def)

lemma approximate_no_points_raised:
  "approximate ar depth 0 tolerance (one_polyline ls []) \<noteq> Some (Inl (Raised msg), s')"
  by (cases depth) (simp_all add: approximate_def PolyLine_init_def one_polyline_def
      dp_simplify.simps getitem_def)

lemma approximate_single:
  "approximate ar (Suc depth) 0 1 (one_polyline [] [Point 0 0])
     = Some (Inr 1, \<lparr>heap = [\<lparr>listeners = [], points = [Point 0 0]\<rparr>,
                             \<lparr>listeners = [], points = [Point 0 0, Point 0 0]\<rparr>],
                     delivered = []\<rparr>)"
proof -
  let ?s = "one_polyline [] [Point 0 0]"
  have "dp_simplify ar (Suc depth) 0 (length (heap ?s)) 1 0 (int (length (points (heap ?s ! 0))) - 1)
          (snd (PolyLine_init ?s))
        = Some (Inr (), extend (length (heap ?s)) [Point 0 0] (snd (PolyLine_init ?s)))"
    by (rule dp_simplify_base) (simp_all add: one_polyline_def PolyLine_init_def getitem_def)
  from approximate_returns[OF this] show ?thesis
    by (simp add: one_polyline_def PolyLine_init_def extend_def)
qed

lemma scan_collinear3: "scan exact collinear3 0 2 [0 + 1 .. 2 - 1] (0, 0) = Inr (0, 0)"
  by (simp add: collinear3_def getitem_def deviation_def normal_intercept_def)

lemma dp_simplify_collinear3:
  "points (heap s ! 0) = collinear3 \<Longrightarrow> dp_simplify exact depth 0 (Suc 0) 0 0 2 s = None"
proof (induction depth arbitrary: s)
  case 0
  then show ?case by (simp add: dp_simplify.simps)
next
  case (Suc depth)
  have g: "getitem (points (heap s ! 0)) 0 = Inr (Point 0 0)"
    using Suc.prems by (simp add: collinear3_def getitem_def)
  have sc: "scan exact (points (heap s ! 0)) 0 2 [0 + 1 .. 2 - 1] (0, 0) = Inr (0, 0)"
    using Suc.prems scan_collinear3 by simp
  show ?case
  proof (cases depth)
    case 0
    with sc show ?thesis by (simp add: dp_simplify.simps)
  next
    case (Suc d)
    have left: "dp_simplify exact depth 0 (Suc 0) 0 0 0 s = Some (Inr (), extend (Suc 0) [Point 0 0] s)"
      unfolding Suc by (rule dp_simplify_base[OF _ g]) simp
    have "points (heap (extend (Suc 0) [Point 0 0] s) ! 0) = collinear3"
      using Suc.prems by (simp add: heap_extend_other)
    from Suc.IH[OF this] dp_simplify_split[OF _ sc _ left]
    show ?thesis by simp
  qed
qed

lemma approximate_collinear3: "approximate exact depth 0 0 (one_polyline ls collinear3) = None"
proof -
  have "points (heap (snd (PolyLine_init (one_polyline ls collinear3))) ! 0) = collinear3"
    by (simp add: PolyLine_init_def one_polyline_def)
  from dp_simplify_collinear3[OF this, of depth] show ?thesis
    by (simp add: approximate_def PolyLine_init_def one_polyline_def collinear3_def)
qed

text \<open>
  The five points with tolerance \<open>0\<close>.  The range \<open>1 .. 3\<close> has one interior point, with
  deviation \<open>0\<close>, so \<open>maxindex\<close> keeps its initial value \<open>0\<close> and the calls for the ranges
  \<open>1 .. 0\<close> and \<open>0 .. 3\<close> follow.
\<close>

lemma scan_zz_04: "scan exact zigzag5 0 4 [0 + 1 .. 4 - 1] (0, 0) = Inr (1, 1)"
  by (simp add: upto.simps zigzag5_def getitem_def deviation_def normal_intercept_def)

lemma scan_zz_14: "scan exact zigzag5 1 4 [1 + 1 .. 4 - 1] (0, 0) = Inr (sqrt (2 / 13), 3)"
  by (simp add: upto.simps zigzag5_def getitem_def deviation_def normal_intercept_def)

lemma scan_zz_13: "scan exact zigzag5 1 3 [1 + 1 .. 3 - 1] (0, 0) = Inr (0, 0)"
  by (simp add: upto.simps zigzag5_def getitem_def deviation_def normal_intercept_def)

lemma scan_zz_03: "scan exact zigzag5 0 3 [0 + 1 .. 3 - 1] (0, 0) = Inr (sqrt (9 / 5), 2)"
  by (simp add: upto.simps zigzag5_def getitem_def deviation_def normal_intercept_def)

lemma scan_zz_02: "scan exact zigzag5 0 2 [0 + 1 .. 2 - 1] (0, 0) = Inr (sqrt (1 / 2), 1)"
  by (simp add: upto.simps zigzag5_def getitem_def deviation_def normal_intercept_def)

lemma zz_base_at:
  assumes "points (heap s ! 0) = zigzag5"
  shows "b - a < 2 \<Longrightarrow> 0 \<le> a \<Longrightarrow> a < 5
         \<Longrightarrow> dp_simplify exact (Suc depth) 0 (Suc 0) 0 a b s
               = Some (Inr (), extend (Suc 0) [zigzag5 ! nat a] s)"
proof -
  assume a: "b - a < 2" "0 \<le> a" "a < 5"
  have "getitem (points (heap s ! 0)) a = Inr (zigzag5 ! nat a)"
    using assms a by (simp add: getitem_def zigzag5_def)
  from dp_simplify_base[OF a(1) this] show ?thesis .
qed

lemma zz_state:
  "points (heap s ! 0) = zigzag5 \<and> Suc 0 < length (heap s)
   \<Longrightarrow> points (heap (extend (Suc 0) ps s) ! 0) = zigzag5 \<and> Suc 0 < length (heap (extend (Suc 0) ps s))"
  by (simp add: heap_extend_other length_heap_extend)

lemma zz_02:
  assumes "points (heap s ! 0) = zigzag5 \<and> Suc 0 < length (heap s)"
  shows "dp_simplify exact (Suc (Suc depth)) 0 (Suc 0) 0 0 2 s
           = Some (Inr (), extend (Suc 0) [Point 0 0, Point 0 1] s)"
proof -
  note st = zz_state[OF assms]
  have sc: "scan exact (points (heap s ! 0)) 0 2 [0 + 1 .. 2 - 1] (0, 0) = Inr (sqrt (1 / 2), 1)"
    using assms scan_zz_02 by simp
  have left: "dp_simplify exact (Suc depth) 0 (Suc 0) 0 0 1 s = Some (Inr (), extend (Suc 0) [Point 0 0] s)"
    using zz_base_at[OF conjunct1[OF assms], where a = 0 and b = 1] by (simp add: zigzag5_def)
  have right: "dp_simplify exact (Suc depth) 0 (Suc 0) 0 1 2 (extend (Suc 0) [Point 0 0] s)
                 = Some (Inr (), extend (Suc 0) [Point 0 1] (extend (Suc 0) [Point 0 0] s))"
    using zz_base_at[OF conjunct1[OF st], where a = 1 and b = 2] by (simp add: zigzag5_def)
  from dp_simplify_split_both[OF _ sc _ left right] assms show ?thesis by simp
qed

lemma zz_03:
  assumes "points (heap s ! 0) = zigzag5 \<and> Suc 0 < length (heap s)"
  shows "dp_simplify exact (Suc (Suc (Suc depth))) 0 (Suc 0) 0 0 3 s
           = Some (Inr (), extend (Suc 0) [Point 0 0, Point 0 1, Point (- 1) 1] s)"
proof -
  note st = zz_state[OF assms]
  have sc: "scan exact (points (heap s ! 0)) 0 3 [0 + 1 .. 3 - 1] (0, 0) = Inr (sqrt (9 / 5), 2)"
    using assms scan_zz_03 by simp
  have left: "dp_simplify exact (Suc (Suc depth)) 0 (Suc 0) 0 0 2 s = Some (Inr (), extend (Suc 0) [Point 0 0, Point 0 1] s)"
    using zz_02[OF assms] by simp
  have right: "dp_simplify exact (Suc (Suc depth)) 0 (Suc 0) 0 2 3 (extend (Suc 0) [Point 0 0, Point 0 1] s)
                 = Some (Inr (), extend (Suc 0) [Point (- 1) 1] (extend (Suc 0) [Point 0 0, Point 0 1] s))"
    using zz_base_at[OF conjunct1[OF st], where a = 2 and b = 3] by (simp add: zigzag5_def)
  from dp_simplify_split_both[OF _ sc _ left right] assms show ?thesis by simp
qed

lemma zz_13:
  assumes "points (heap s ! 0) = zigzag5 \<and> Suc 0 < length (heap s)"
  shows "dp_simplify exact (Suc (Suc (Suc (Suc depth)))) 0 (Suc 0) 0 1 3 s
           = Some (Inr (), extend (Suc 0) [Point 0 1, Point 0 0, Point 0 1, Point (- 1) 1] s)"
proof -
  note st = zz_state[OF assms]
  have sc: "scan exact (points (heap s ! 0)) 1 3 [1 + 1 .. 3 - 1] (0, 0) = Inr (0, 0)"
    using assms scan_zz_13 by simp
  have left: "dp_simplify exact (Suc (Suc (Suc depth))) 0 (Suc 0) 0 1 0 s = Some (Inr (), extend (Suc 0) [Point 0 1] s)"
    using zz_base_at[OF conjunct1[OF assms], where a = 1 and b = 0] by (simp add: zigzag5_def)
  have right: "dp_simplify exact (Suc (Suc (Suc depth))) 0 (Suc 0) 0 0 3 (extend (Suc 0) [Point 0 1] s)
                 = Some (Inr (), extend (Suc 0) [Point 0 0, Point 0 1, Point (- 1) 1] (extend (Suc 0) [Point 0 1] s))"
    using zz_03[OF st] by simp
  from dp_simplify_split_both[OF _ sc _ left right] assms show ?thesis by simp
qed

lemma zz_14:
  assumes "points (heap s ! 0) = zigzag5 \<and> Suc 0 < length (heap s)"
  shows "dp_simplify exact (Suc (Suc (Suc (Suc (Suc depth))))) 0 (Suc 0) 0 1 4 s
           = Some (Inr (), extend (Suc 0) [Point 0 1, Point 0 0, Point 0 1, Point (- 1) 1, Point 2 1] s)"
proof -
  note st = zz_state[OF assms]
  have sc: "scan exact (points (heap s ! 0)) 1 4 [1 + 1 .. 4 - 1] (0, 0) = Inr (sqrt (2 / 13), 3)"
    using assms scan_zz_14 by simp
  have left: "dp_simplify exact (Suc (Suc (Suc (Suc depth)))) 0 (Suc 0) 0 1 3 s = Some (Inr (), extend (Suc 0) [Point 0 1, Point 0 0, Point 0 1, Point (- 1) 1] s)"
    using zz_13[OF assms] by simp
  have right: "dp_simplify exact (Suc (Suc (Suc (Suc depth)))) 0 (Suc 0) 0 3 4 (extend (Suc 0) [Point 0 1, Point 0 0, Point 0 1, Point (- 1) 1] s)
                 = Some (Inr (), extend (Suc 0) [Point 2 1] (extend (Suc 0) [Point 0 1, Point 0 0, Point 0 1, Point (- 1) 1] s))"
    using zz_base_at[OF conjunct1[OF st], where a = 3 and b = 4] by (simp add: zigzag5_def)
  from dp_simplify_split_both[OF _ sc _ left right] assms show ?thesis by simp
qed

lemma zz_04:
  assumes "points (heap s ! 0) = zigzag5 \<and> Suc 0 < length (heap s)"
  shows "dp_simplify exact (Suc (Suc (Suc (Suc (Suc (Suc depth)))))) 0 (Suc 0) 0 0 4 s
           = Some (Inr (), extend (Suc 0) [Point 0 0, Point 0 1, Point 0 0, Point 0 1, Point (- 1) 1, Point 2 1] s)"
proof -
  note st = zz_state[OF assms]
  have sc: "scan exact (points (heap s ! 0)) 0 4 [0 + 1 .. 4 - 1] (0, 0) = Inr (1, 1)"
    using assms scan_zz_04 by simp
  have left: "dp_simplify exact (Suc (Suc (Suc (Suc (Suc depth))))) 0 (Suc 0) 0 0 1 s = Some (Inr (), extend (Suc 0) [Point 0 0] s)"
    using zz_base_at[OF conjunct1[OF assms], where a = 0 and b = 1] by (simp add: zigzag5_def)
  have right: "dp_simplify exact (Suc (Suc (Suc (Suc (Suc depth))))) 0 (Suc 0) 0 1 4 (extend (Suc 0) [Point 0 0] s)
                 = Some (Inr (), extend (Suc 0) [Point 0 1, Point 0 0, Point 0 1, Point (- 1) 1, Point 2 1] (extend (Suc 0) [Point 0 0] s))"
    using zz_14[OF st] by simp
  from dp_simplify_split_both[OF _ sc _ left right] assms show ?thesis by simp
qed

lemma approximate_zigzag5:
  "approximate exact (Suc (Suc (Suc (Suc (Suc (Suc depth)))))) 0 0 (one_polyline [] zigzag5)
     = Some (Inr 1, \<lparr>heap = [\<lparr>listeners = [], points = zigzag5\<rparr>,
                             \<lparr>listeners = [], points =
                                [Point 0 0, Point 0 1, Point 0 0, Point 0 1, Point (- 1) 1,
                                 Point 2 1, Point 5 0]\<rparr>],
                     delivered = []\<rparr>)"
proof -
  let ?s = "one_polyline [] zigzag5"
  have st: "points (heap (snd (PolyLine_init ?s)) ! 0) = zigzag5
            \<and> Suc 0 < length (heap (snd (PolyLine_init ?s)))"
    by (simp add: PolyLine_init_def one_polyline_def)
  have "length (heap ?s) = Suc 0" "int (length (points (heap ?s ! 0))) - 1 = 4"
    by (simp_all add: one_polyline_def zigzag5_def)
  with zz_04[OF st, of depth]
  have "dp_simplify exact (Suc (Suc (Suc (Suc (Suc (Suc depth)))))) 0 (length (heap ?s)) 0 0
          (int (length (points (heap ?s ! 0))) - 1) (snd (PolyLine_init ?s))
        = Some (Inr (), extend (length (heap ?s))
               [Point 0 0, Point 0 1, Point 0 0, Point 0 1, Point (- 1) 1, Point 2 1]
               (snd (PolyLine_init ?s)))"
    by simp
  from approximate_returns[OF this] show ?thesis
    by (simp add: one_polyline_def PolyLine_init_def extend_def zigzag5_def)
qed

text \<open>
  The three points of \<open>steep3\<close> with tolerance \<open>1\<close>: the slope of the line from the first
  point to the last underflows to zero, and \<open>1.0 / seg_slope\<close> raises.
\<close>

lemma underflowing_sub: "n_sub underflowing a b = Inr (a - b)"
  by (simp add: underflowing_def exact_def)

lemma underflowing_div_zero: "n_div underflowing a 0 = Inl ZeroDivisionError"
  by (simp add: underflowing_def)

lemma far_large: "2 * 2 ^ 1075 < far"
proof -
  have "(2::real) * 2 ^ 1075 = 2 ^ 1076" by simp
  also have "(2::real) ^ 1076 \<le> 2 ^ 1200" by (rule power_increasing) simp_all
  also have "(2::real) ^ 1200 = (2 ^ 3) ^ 400" by (simp only: power_mult[symmetric]) simp
  also have "((2::real) ^ 3) ^ 400 < 10 ^ 400" by (rule power_strict_mono) simp_all
  finally show ?thesis by (simp only: far_def)
qed

lemma far_positive: "0 < far"
  by (simp add: far_def)

lemma underflowing_div_far: "n_div underflowing 2 far = Inr 0"
proof -
  have p: "(0::real) < 2 ^ 1075" by simp
  have "2 / far < 1 / 2 ^ 1075"
  proof -
    have "2 * 2 ^ 1075 < 1 * far" using far_large by simp
    with far_positive p show ?thesis by (simp only: frac_less2 divide_less_eq less_divide_eq
          times_divide_eq_left if_True mult.commute[of 2])
  qed
  moreover have "\<bar>2 / far\<bar> = 2 / far" using far_positive by simp
  ultimately have "\<bar>2 / far\<bar> < 1 / 2 ^ 1075" by (simp only:)
  moreover have "far \<noteq> 0" using far_positive by simp
  ultimately show ?thesis by (simp only: underflowing_def exact_def arith.simps if_True if_False)
qed

lemma deviation_steep3:
  "deviation underflowing (Point 0 0) (Point far 2) (Point 1 1) = Inl ZeroDivisionError"
proof -
  have "far \<noteq> 0" using far_positive by simp
  then show ?thesis
    by (simp add: deviation_def normal_intercept_def underflowing_sub underflowing_div_far
        underflowing_div_zero)
qed

lemma approximate_steep3:
  "approximate underflowing (Suc depth) 0 1 (one_polyline [] steep3)
     = Some (Inl ZeroDivisionError,
             \<lparr>heap = [\<lparr>listeners = [], points = steep3\<rparr>, \<lparr>listeners = [], points = []\<rparr>],
              delivered = []\<rparr>)"
proof -
  let ?s = "one_polyline [] steep3"
  let ?init = "snd (PolyLine_init ?s)"
  have sc: "scan underflowing steep3 0 2 [0 + 1 .. 2 - 1] (0, 0) = Inl ZeroDivisionError"
    using deviation_steep3 by (simp add: steep3_def getitem_def)
  have p: "points (heap ?init ! 0) = steep3" by (simp add: one_polyline_def PolyLine_init_def)
  have sc': "scan underflowing (points (heap ?init ! 0)) 0 2 [0 + 1 .. 2 - 1] (0, 0)
               = Inl ZeroDivisionError"
    unfolding p by (rule sc)
  have nb: "\<not> (2::int) - 0 < 2" by simp
  have len: "int (length (points (heap ?s ! 0))) - 1 = 2" by (simp add: one_polyline_def steep3_def)
  have "dp_simplify underflowing (Suc depth) 0 (length (heap ?s)) 1 0
          (int (length (points (heap ?s ! 0))) - 1) ?init
        = Some (Inl ZeroDivisionError, ?init)"
    unfolding len by (rule dp_simplify_raises[OF nb sc'])
  from approximate_raises[OF this] show ?thesis
    by (simp add: one_polyline_def PolyLine_init_def)
qed

section \<open>The claims\<close>

subsection \<open>C1: the deviation bound\<close>

text \<open>
  C1 promises, for every tolerance \<open>t \<ge> 0\<close>, a returned polyline from which no point
  deviates by more than \<open>t\<close>.  For three points on a line and \<open>t = 0\<close> no polyline is
  returned at all, whatever the recursion depth: the maximal deviation \<open>0\<close> is not below
  the tolerance, \<open>maxindex\<close> still has its initial value \<open>0\<close>, and the second recursive
  call is the call for the same range \<open>0 .. 2\<close> again.  The coordinates are small ints, so
  the arithmetic of the run is exact.  (For \<open>t > 0\<close> see lemma
  \<open>approximate_positive_tolerance\<close>: the call completes, and in a polyline that it
  returns every deviation that was computed is below the tolerance.)
\<close>

theorem never_returns_at_zero:
  "\<forall>depth r s'. approximate exact depth 0 0 (one_polyline [] collinear3) \<noteq> Some (Inr r, s')"
  by (simp add: approximate_collinear3)

subsection \<open>C2: a subsequence with both end points\<close>

text \<open>
  C2 promises that the vertices of the result are a subsequence of the vertices of the
  polyline, at strictly increasing indices.  A polyline of one point comes back with that
  point twice (once from the base case, once from the final append); and for the five
  example points with tolerance \<open>0\<close> the result has seven vertices, at the indices
  \<open>0, 1, 0, 1, 2, 3, 4\<close>.  (For \<open>t > 0\<close> and two points or more the vertices of a
  returned polyline are such a subsequence: lemma \<open>approximate_positive_tolerance\<close>.)
\<close>

theorem vertices_not_a_subsequence:
  "(\<forall>depth. approximate exact (Suc depth) 0 1 (one_polyline [] [Point 0 0])
       = Some (Inr 1, \<lparr>heap = [\<lparr>listeners = [], points = [Point 0 0]\<rparr>,
                               \<lparr>listeners = [], points = [Point 0 0, Point 0 0]\<rparr>],
                       delivered = []\<rparr>))
   \<and> (\<forall>depth. approximate exact (Suc (Suc (Suc (Suc (Suc (Suc depth)))))) 0 0 (one_polyline [] zigzag5)
       = Some (Inr 1, \<lparr>heap = [\<lparr>listeners = [], points = zigzag5\<rparr>,
                               \<lparr>listeners = [], points =
                                  [Point 0 0, Point 0 1, Point 0 0, Point 0 1, Point (- 1) 1,
                                   Point 2 1, Point 5 0]\<rparr>],
                       delivered = []\<rparr>))"
  by (simp add: approximate_single approximate_zigzag5)

subsection \<open>C3: termination\<close>

text \<open>
  C3 promises that the recursion reaches its base case, at a depth proportional to the
  number of points.  For three points on a line and tolerance \<open>0\<close> no recursion depth is
  enough.  (For \<open>t > 0\<close> a depth of the number of points is enough: lemma
  \<open>approximate_positive_tolerance\<close>.)
\<close>

theorem recursion_never_ends_at_zero:
  "\<forall>depth. approximate exact depth 0 0 (one_polyline [] collinear3) = None"
  by (simp add: approximate_collinear3)

subsection \<open>C4: notifications\<close>

text \<open>
  C4 expects one \<open>final_approx_seg\<close> notification for the scenario polyline with tolerance
  \<open>1\<close> and one registered listener.  The run returns the two end points, and the list of
  delivered notifications is still empty: \<open>_dp_simplify\<close> never calls \<open>notify_all\<close>.
\<close>

theorem no_notification_delivered:
  "approximate exact (Suc depth) 0 1 (one_polyline [7] line4)
     = Some (Inr 1, \<lparr>heap = [\<lparr>listeners = [7], points = line4\<rparr>,
                             \<lparr>listeners = [], points = [Point 0 0, Point 3 0]\<rparr>],
                     delivered = []\<rparr>)"
  by (simp add: approximate_line4)

subsection \<open>C5: the empty polyline\<close>

text \<open>
  C5 as stated fails: it promises a descriptive error for the violated precondition.  The
  code has no test for an empty polyline and no \<open>raise\<close> statement; what the call raises is
  the \<open>IndexError\<close> of the interpreter, never an exception \<open>Raised msg\<close> of the program's
  own.
\<close>

theorem approximate_empty_counterexample:
  "approximate exact (Suc 0) 0 1 (one_polyline [] [])
     = Some (Inl IndexError,
             \<lparr>heap = [\<lparr>listeners = [], points = []\<rparr>, \<lparr>listeners = [], points = []\<rparr>],
              delivered = []\<rparr>)
   \<and> \<not> (\<exists>ar depth tolerance msg s'.
          approximate ar depth 0 tolerance (one_polyline [] []) = Some (Inl (Raised msg), s'))"
  by (simp add: approximate_no_points_raised)
     (simp add: approximate_def PolyLine_init_def one_polyline_def dp_simplify.simps getitem_def)

text \<open>
  C5, amended: \<open>approximate\<close> on an empty polyline raises \<open>IndexError\<close> and returns no
  result, whatever the arithmetic and the tolerance.  The first thing \<open>_dp_simplify\<close> does,
  for the range \<open>0 .. -1\<close>, is to read \<open>self._points[0]\<close>, which raises; no point has
  been appended, and the only trace of the call is the new, still empty, object.
\<close>

theorem approximate_empty:
  assumes "self < length (heap s)" and "points (heap s ! self) = []"
  shows "approximate ar (Suc depth) self tolerance s
           = Some (Inl IndexError, s\<lparr>heap := heap s @ [\<lparr>listeners = [], points = []\<rparr>]\<rparr>)"
  using assms
  by (simp add: approximate_def PolyLine_init_def nth_append getitem_def dp_simplify.simps)

theorem approximate_empty_witness:
  "(0::nat) < length (heap (one_polyline [7] []))
   \<and> points (heap (one_polyline [7] []) ! 0) = []
   \<and> approximate exact (Suc 2) 0 0 (one_polyline [7] [])
       = Some (Inl IndexError, \<lparr>heap = [\<lparr>listeners = [7], points = []\<rparr>, \<lparr>listeners = [], points = []\<rparr>],
                                delivered = []\<rparr>)"
proof -
  have l: "(0::nat) < length (heap (one_polyline [7] []))" by (simp add: one_polyline_def)
  have e: "points (heap (one_polyline [7] []) ! 0) = []" by (simp add: one_polyline_def)
  from approximate_empty[OF l e, of exact 2 0] l e show ?thesis by (simp add: one_polyline_def)
qed

subsection \<open>C6: simplifying twice\<close>

text \<open>
  C6 as stated, for every polyline and every tolerance \<open>t \<ge> 0\<close>, fails: on the empty
  polyline \<open>approximate\<close> raises, and for three points on a line and \<open>t = 0\<close> it does not
  return.
\<close>

theorem approximate_idempotent_counterexample:
  "\<not> (\<exists>ar depth r1 s1 r2 s2.
          approximate ar depth 0 1 (one_polyline [] []) = Some (Inr r1, s1)
          \<and> approximate ar depth r1 1 s1 = Some (Inr r2, s2)
          \<and> points (heap s2 ! r2) = points (heap s1 ! r1))
   \<and> \<not> (\<exists>depth r1 s1 r2 s2.
          approximate exact depth 0 0 (one_polyline [] collinear3) = Some (Inr r1, s1)
          \<and> approximate exact depth r1 0 s1 = Some (Inr r2, s2)
          \<and> points (heap s2 ! r2) = points (heap s1 ! r1))"
  by (simp add: approximate_collinear3 approximate_no_points)

text \<open>
  C6, amended: for a polyline that is not empty and a tolerance \<open>t > 0\<close>, with a
  recursion depth of the number of points and whatever the arithmetic, \<open>approximate\<close>
  completes: it returns a polyline, or it raises an exception that \<open>deviation\<close> raises for
  three points of the polyline (lemma \<open>approximate_steep3\<close> shows such a run, a
  \<open>ZeroDivisionError\<close> for a slope that underflows).  If it returns a polyline, then
  \<open>approximate\<close> on that polyline returns one too, and the two have the same points.
\<close>

theorem approximate_idempotent:
  assumes "0 < tolerance" "self < length (heap s)" "points (heap s ! self) \<noteq> []"
    and "length (points (heap s ! self)) \<le> depth"
  shows "\<exists>out s1.
           approximate ar depth self tolerance s = Some (out, s1)
           \<and> (\<forall>r1. out = Inr r1 \<longrightarrow>
                 (\<exists>r2 s2. approximate ar depth r1 tolerance s1 = Some (Inr r2, s2)
                     \<and> points (heap s2 ! r2) = points (heap s1 ! r1)))
           \<and> (\<forall>e. out = Inl e \<longrightarrow>
                 (\<exists>j i k. j < i \<and> i < k \<and> k < length (points (heap s ! self))
                    \<and> deviation ar (points (heap s ! self) ! j) (points (heap s ! self) ! k)
                         (points (heap s ! self) ! i) = Inl e))"
proof -
  let ?pts = "points (heap s ! self)"
  let ?r1 = "length (heap s)"
  from approximate_positive_tolerance[OF assms, of ar] obtain out s1 where
    run: "approximate ar depth self tolerance s = Some (out, s1)"
    and ret: "\<forall>r. out = Inr r \<longrightarrow> r = ?r1
                 \<and> (\<exists>ks. kept ar ?pts tolerance = Inr ks \<and> points (heap s1 ! r) = map ((!) ?pts) ks)"
    and exc: "\<forall>e. out = Inl e \<longrightarrow>
                 (\<exists>j i k. j < i \<and> i < k \<and> k < length ?pts
                    \<and> deviation ar (?pts ! j) (?pts ! k) (?pts ! i) = Inl e)"
    by blast
  have d: "1 \<le> depth" "length ?pts - 1 \<le> depth"
    using assms(3,4) by (cases ?pts; simp)+
  have "\<exists>r2 s2. approximate ar depth r1 tolerance s1 = Some (Inr r2, s2)
           \<and> points (heap s2 ! r2) = points (heap s1 ! r1)" if out: "out = Inr r1" for r1
  proof -
    from ret out obtain ks where r1: "r1 = ?r1" and ks: "kept ar ?pts tolerance = Inr ks"
      and p1: "points (heap s1 ! r1) = map ((!) ?pts) ks" by blast
    let ?qs = "map ((!) ?pts) ks"
    from approximate_kept[OF assms(1-3) d, of ar] run out ks have
      "\<exists>ps. s1 = extend ?r1 ps (snd (PolyLine_init s))" by auto
    then have l1: "r1 < length (heap s1)" unfolding r1 by (auto simp add: length_heap_new)
    from length_kept[OF ks] have ne: "points (heap s1 ! r1) \<noteq> []"
      and "length ks - 1 \<le> max 1 (length ?pts - 1)" unfolding p1 by simp_all
    with d have d2: "length (points (heap s1 ! r1)) - 1 \<le> depth" unfolding p1 by simp
    from kept_resimplify[OF ks] have k2: "kept ar ?qs tolerance = Inr [0 ..< length ks]" .
    from approximate_kept[OF assms(1) l1 ne d(1) d2, of ar] obtain ps where
      second: "approximate ar depth r1 tolerance s1
                = Some (Inr (length (heap s1)), extend (length (heap s1)) ps (snd (PolyLine_init s1)))"
      and ps: "ps = map ((!) ?qs) [0 ..< length ks]"
      unfolding p1 k2 by auto
    have "points (heap (extend (length (heap s1)) ps (snd (PolyLine_init s1))) ! length (heap s1)) = ps"
      by (rule points_of_new)
    also have "ps = ?qs" unfolding ps using map_nth[of ?qs] by simp
    finally show ?thesis using second p1 by auto
  qed
  with run exc show ?thesis by blast
qed

theorem approximate_idempotent_witness:
  "(0::real) < 1
   \<and> 0 < length (heap (one_polyline [] line4))
   \<and> points (heap (one_polyline [] line4) ! 0) \<noteq> []
   \<and> length (points (heap (one_polyline [] line4) ! 0)) \<le> 4
   \<and> approximate exact 4 0 1 (one_polyline [] line4)
       = Some (Inr 1, \<lparr>heap = [\<lparr>listeners = [], points = line4\<rparr>,
                               \<lparr>listeners = [], points = [Point 0 0, Point 3 0]\<rparr>],
                       delivered = []\<rparr>)
   \<and> (\<exists>r2 s2. approximate exact 4 1 1
                   \<lparr>heap = [\<lparr>listeners = [], points = line4\<rparr>,
                            \<lparr>listeners = [], points = [Point 0 0, Point 3 0]\<rparr>],
                    delivered = []\<rparr> = Some (Inr r2, s2)
         \<and> points (heap s2 ! r2) = [Point 0 0, Point 3 0])"
proof -
  have h: "(0::real) < 1" "0 < length (heap (one_polyline [] line4))"
    "points (heap (one_polyline [] line4) ! 0) \<noteq> []"
    "length (points (heap (one_polyline [] line4) ! 0)) \<le> 4"
    by (simp_all add: one_polyline_def line4_def)
  have four: "(4::nat) = Suc 3" by simp
  have first: "approximate exact 4 0 1 (one_polyline [] line4)
       = Some (Inr 1, \<lparr>heap = [\<lparr>listeners = [], points = line4\<rparr>,
                               \<lparr>listeners = [], points = [Point 0 0, Point 3 0]\<rparr>],
                       delivered = []\<rparr>)"
    unfolding four by (rule approximate_line4)
  from approximate_idempotent[OF h, of exact] first
  have "\<exists>r2 s2. approximate exact 4 1 1
                   \<lparr>heap = [\<lparr>listeners = [], points = line4\<rparr>,
                            \<lparr>listeners = [], points = [Point 0 0, Point 3 0]\<rparr>],
                    delivered = []\<rparr> = Some (Inr r2, s2)
         \<and> points (heap s2 ! r2) = [Point 0 0, Point 3 0]"
    by auto
  with h first show ?thesis by blast
qed

subsection \<open>C7: a looser tolerance keeps no more points\<close>




subsection \<open>C8: the order of the special cases\<close>

text \<open>
  C8: \<open>normal_intercept\<close> tests \<open>p1.x == p2.x\<close> first (so \<open>p1 == p2\<close> takes that
  branch), then \<open>p1.y == p2.y\<close>, and uses the slope formula only when both tests fail;
  for \<open>p1 = (2,0)\<close>, \<open>p2 = (2,10)\<close>, \<open>p = (5,4)\<close> the intercept is \<open>(2,4)\<close> and the
  deviation is \<open>3\<close>.  The special cases involve no arithmetic, so they hold whatever the
  arithmetic; the slope formula and the deviation of the example are stated for exact
  arithmetic.
\<close>

theorem normal_intercept_priority:
  "(p_x p1 = p_x p2 \<longrightarrow> normal_intercept ar p1 p2 p = Inr (Point (p_x p1) (p_y p)))
   \<and> normal_intercept ar p1 p1 p = Inr (Point (p_x p1) (p_y p))
   \<and> (p_x p1 \<noteq> p_x p2 \<and> p_y p1 = p_y p2
        \<longrightarrow> normal_intercept ar p1 p2 p = Inr (Point (p_x p) (p_y p1)))
   \<and> (p_x p1 \<noteq> p_x p2 \<and> p_y p1 \<noteq> p_y p2 \<longrightarrow>
        normal_intercept exact p1 p2 p =
          Inr (let seg_slope = (p_y p2 - p_y p1) / (p_x p2 - p_x p1);
                   normal_slope = 0 - (1 / seg_slope);
                   seg_b = p_y p1 - seg_slope * p_x p1;
                   normal_b = p_y p - normal_slope * p_x p;
                   x_intersect = (seg_b - normal_b) / (normal_slope - seg_slope)
               in Point x_intersect (seg_slope * x_intersect + seg_b)))
   \<and> normal_intercept ar (Point 2 0) (Point 2 10) (Point 5 4) = Inr (Point 2 4)
   \<and> deviation exact (Point 2 0) (Point 2 10) (Point 5 4) = Inr 3"
proof -
  have "normal_intercept exact p1 p2 p =
          Inr (let seg_slope = (p_y p2 - p_y p1) / (p_x p2 - p_x p1);
                   normal_slope = 0 - (1 / seg_slope);
                   seg_b = p_y p1 - seg_slope * p_x p1;
                   normal_b = p_y p - normal_slope * p_x p;
                   x_intersect = (seg_b - normal_b) / (normal_slope - seg_slope)
               in Point x_intersect (seg_slope * x_intersect + seg_b))"
    if "p_x p1 \<noteq> p_x p2" "p_y p1 \<noteq> p_y p2"
    using that by (intro normal_intercept_exact_general) auto
  moreover have "deviation exact (Point 2 0) (Point 2 10) (Point 5 4) = Inr 3"
    by (simp add: deviation_def normal_intercept_def)
  ultimately show ?thesis
    by (simp add: normal_intercept_vertical normal_intercept_horizontal)
qed

theorem normal_intercept_priority_witness:
  "normal_intercept exact (Point 2 0) (Point 2 10) (Point 5 4) = Inr (Point 2 4)
   \<and> normal_intercept exact (Point 2 3) (Point 2 3) (Point 5 4) = Inr (Point 2 4)
   \<and> normal_intercept exact (Point 0 3) (Point 10 3) (Point 4 7) = Inr (Point 4 3)
   \<and> normal_intercept exact (Point 0 0) (Point 2 2) (Point 2 0) = Inr (Point 1 1)"
  using normal_intercept_priority[where ?p1.0 = "Point 2 0" and ?p2.0 = "Point 2 10"
      and p = "Point 5 4" and ar = exact]
    normal_intercept_priority[where ?p1.0 = "Point 2 3" and ?p2.0 = "Point 2 3"
      and p = "Point 5 4" and ar = exact]
    normal_intercept_priority[where ?p1.0 = "Point 0 3" and ?p2.0 = "Point 10 3"
      and p = "Point 4 7" and ar = exact]
    normal_intercept_priority[where ?p1.0 = "Point 0 0" and ?p2.0 = "Point 2 2"
      and p = "Point 2 0" and ar = exact]
  by (simp add: Let_def)

subsection \<open>C9: the polyline itself is left alone\<close>

text \<open>
  C9: a call of \<open>approximate\<close> that completes, by returning or by raising, leaves every
  object that existed before the call as it was (its points and its listeners), delivers
  nothing, and adds exactly one object to the heap; a returned reference is that new
  object, which is not \<open>self\<close>.
\<close>

theorem approximate_frame:
  assumes "self < length (heap s)"
    and "approximate ar depth self tolerance s = Some (res, s')"
  shows "\<exists>ps. heap s' = heap s @ [\<lparr>listeners = [], points = ps\<rparr>]
            \<and> delivered s' = delivered s
            \<and> heap s' ! self = heap s ! self
            \<and> (case res of Inl e \<Rightarrow> True | Inr r \<Rightarrow> r = length (heap s) \<and> r \<noteq> self)"
proof -
  let ?init = "s\<lparr>heap := heap s @ [\<lparr>listeners = [], points = []\<rparr>]\<rparr>"
  let ?a = "length (heap s)"
  have a: "?a < length (heap ?init)" by simp
  have ext: "\<exists>ps. heap (extend ?a qs ?init) = heap s @ [\<lparr>listeners = [], points = ps\<rparr>]
            \<and> delivered (extend ?a qs ?init) = delivered s
            \<and> heap (extend ?a qs ?init) ! self = heap s ! self" for qs
    using assms(1) by (simp add: extend_def nth_append)
  from assms(2) obtain r1 s1 where
    d: "dp_simplify ar depth self ?a tolerance 0 (int (length (points (heap ?init ! self))) - 1) ?init
          = Some (r1, s1)"
    by (auto simp add: approximate_def PolyLine_init_def split: option.splits)
  from dp_simplify_extends[OF a d] obtain ps where s1: "s1 = extend ?a ps ?init" by blast
  show ?thesis
  proof (cases r1)
    case (Inl e)
    with assms(2) d have "s' = s1" "res = Inl e"
      by (auto simp add: approximate_def PolyLine_init_def)
    with s1 ext[of ps] show ?thesis by auto
  next
    case (Inr u)
    show ?thesis
    proof (cases "getitem (points (heap s1 ! self)) (- 1)")
      case gl: (Inl e)
      with Inr assms(2) d have "s' = s1" "res = Inl e"
        by (auto simp add: approximate_def PolyLine_init_def)
      with s1 ext[of ps] show ?thesis by auto
    next
      case gr: (Inr p)
      with Inr assms(2) d have "s' = append ?a p s1" "res = Inr ?a"
        by (auto simp add: approximate_def PolyLine_init_def)
      then have "s' = extend ?a (ps @ [p]) ?init" "res = Inr ?a"
        using s1 a by (simp_all add: append_extend extend_extend)
      with ext[of "ps @ [p]"] assms(1) show ?thesis by auto
    qed
  qed
qed

theorem approximate_frame_witness:
  "(0::nat) < length (heap (one_polyline [7] line4))
   \<and> approximate exact (Suc 0) 0 1 (one_polyline [7] line4)
       = Some (Inr 1, \<lparr>heap = [\<lparr>listeners = [7], points = line4\<rparr>,
                               \<lparr>listeners = [], points = [Point 0 0, Point 3 0]\<rparr>],
                       delivered = []\<rparr>)
   \<and> (\<exists>ps. [\<lparr>listeners = [7], points = line4\<rparr>, \<lparr>listeners = [], points = [Point 0 0, Point 3 0]\<rparr>]
              = heap (one_polyline [7] line4) @ [\<lparr>listeners = [], points = ps\<rparr>])
   \<and> [\<lparr>listeners = [7], points = line4\<rparr>, \<lparr>listeners = []::nat list, points = [Point 0 0, Point 3 0]\<rparr>] ! 0
        = heap (one_polyline [7] line4) ! 0
   \<and> (1::nat) = length (heap (one_polyline [7] line4)) \<and> (1::nat) \<noteq> 0"
proof -
  have l: "(0::nat) < length (heap (one_polyline [7] line4))" by (simp add: one_polyline_def)
  from approximate_frame[OF l approximate_line4[of 0 "[7]"]] l approximate_line4[of 0 "[7]"]
  show ?thesis by (simp add: one_polyline_def)
qed

subsection \<open>C10: equality\<close>

text \<open>
  C10: \<open>__eq__\<close> returns \<open>True\<close> exactly when the comparison of this polyline's points
  with the operand succeeds, returns \<open>None\<close> otherwise, and never returns \<open>False\<close>.
\<close>

theorem PolyLine_eq_degenerate:
  "PolyLine_eq s self other \<noteq> Some False
   \<and> (PolyLine_eq s self other = Some True) = points_equal s (points (heap s ! self)) other
   \<and> (PolyLine_eq s self other = None) = (\<not> points_equal s (points (heap s ! self)) other)
   \<and> points_equal s (points (heap s ! self)) (OPolyLine r)
       = (points (heap s ! self) = points (heap s ! r))
   \<and> points_equal s (points (heap s ! self)) (OList qs) = (points (heap s ! self) = qs)
   \<and> PolyLine_eq s self OOther = None"
  by (auto simp add: PolyLine_eq_def points_equal_def PolyLine_eq_list_def)

end
